theory Spec2Isabelle
  imports Complex_Main
begin

section \<open>Python values used by the engine\<close>

text \<open>
  Objects live in a store and are named by their address. A Python float is a real
  number or positive infinity (\<^verbatim>\<open>float('inf')\<close>); rounding is not modelled.
\<close>

type_synonym addr = nat

datatype pyfloat = Finite real | PosInf

text \<open>The comparison \<^verbatim>\<open>a > b\<close> on floats.\<close>

fun float_gt :: "pyfloat \<Rightarrow> pyfloat \<Rightarrow> bool" where
  "float_gt (Finite a) (Finite b) = (b < a)"
| "float_gt PosInf (Finite b) = True"
| "float_gt a PosInf = False"

text \<open>
  The exceptions of \<^verbatim>\<open>mcts.py\<close>, one constructor per \<^verbatim>\<open>raise\<close>, and the
  \<^verbatim>\<open>ValueError\<close> of \<^verbatim>\<open>math.log\<close> outside its domain.
\<close>

datatype error =
    NeitherGiven
  | BothGiven
  | TimeLimitNotPositive
  | IterationsNotPositive
  | NoChildren
  | MathDomainError
  | NotANode
  | NodeIsNone

text \<open>The argument errors of \<^verbatim>\<open>search\<close> (lines 68 to 75).\<close>

fun is_argument_error :: "error \<Rightarrow> bool" where
  "is_argument_error NeitherGiven = True"
| "is_argument_error BothGiven = True"
| "is_argument_error TimeLimitNotPositive = True"
| "is_argument_error IterationsNotPositive = True"
| "is_argument_error e = False"

type_synonym 'a result = "(error + 'a) option"

section \<open>Nodes\<close>

text \<open>
  The fields of \<^verbatim>\<open>MonteCarloTreeNode\<close>. \<open>payload\<close> stands for whatever a concrete
  subclass adds (a board, the player to move).
\<close>

record 's MonteCarloTreeNode =
  visit :: nat
  score :: real
  children :: "addr list"
  is_terminal :: bool
  parent :: "addr option"
  minmax_search :: bool
  payload :: 's

type_synonym 's heap = "addr \<Rightarrow> 's MonteCarloTreeNode"

text \<open>\<^verbatim>\<open>MonteCarloTreeNode.__init__\<close>.\<close>

definition init_node :: "bool \<Rightarrow> 's \<Rightarrow> 's MonteCarloTreeNode" where
  "init_node m p =
     \<lparr>visit = 0, score = 0, children = [], is_terminal = False, parent = None,
      minmax_search = m, payload = p\<rparr>"

text \<open>
  What a subclass constructor decides for a new node: its payload, the flag it hands to
  \<^verbatim>\<open>__init__\<close>, and whether it marks the node terminal afterwards.
\<close>

record 's node_init =
  init_payload :: 's
  init_minmax :: bool
  init_terminal :: bool

definition construct :: "'s node_init \<Rightarrow> 's MonteCarloTreeNode" where
  "construct i = (init_node (init_minmax i) (init_payload i))\<lparr>is_terminal := init_terminal i\<rparr>"

text \<open>
  The two abstract methods, the clock and the class attribute \<^verbatim>\<open>exploration_weight\<close>.
  \<open>'g\<close> is the state of the outside world that random playouts and the clock read.
\<close>

record ('s, 'g) hooks =
  expand :: "'s \<Rightarrow> 's node_init list"
  simulate :: "'s \<Rightarrow> 'g \<Rightarrow> real \<times> 'g"
  time_py :: "'g \<Rightarrow> real \<times> 'g"
  exploration_weight :: real

definition default_exploration_weight :: real where
  "default_exploration_weight = 1"

text \<open>
  The program state: the object store, the next unused address, \<^verbatim>\<open>self.root\<close> of the
  one \<^verbatim>\<open>MonteCarloTree\<close>, and the outside world.
\<close>

record ('s, 'g) world =
  heap :: "'s heap"
  fresh :: addr
  tree_root :: addr
  env :: 'g

subsection \<open>\<^verbatim>\<open>ucb1\<close>\<close>

definition ucb1 :: "real \<Rightarrow> 's MonteCarloTreeNode \<Rightarrow> int \<Rightarrow> error + pyfloat" where
  "ucb1 w n N =
     (if visit n = 0 then Inr PosInf
      else if N \<le> 0 then Inl MathDomainError
      else Inr (Finite (score n / real (visit n) + w * (ln (real_of_int N) / real (visit n)))))"

subsection \<open>\<^verbatim>\<open>select\<close>\<close>

text \<open>The \<^verbatim>\<open>for child in self.children\<close> loop, with the best child and value so far.\<close>

fun select_loop ::
  "real \<Rightarrow> 's heap \<Rightarrow> int \<Rightarrow> addr list \<Rightarrow> addr \<Rightarrow> pyfloat \<Rightarrow> error + addr" where
  "select_loop w h N [] best_child best_ucb1 = Inr best_child"
| "select_loop w h N (child # rest) best_child best_ucb1 =
     (if visit (h child) = 0 then Inr child
      else case ucb1 w (h child) N of
        Inl e \<Rightarrow> Inl e
      | Inr u \<Rightarrow>
          if float_gt u best_ucb1 then select_loop w h N rest child u
          else select_loop w h N rest best_child best_ucb1)"

definition select :: "real \<Rightarrow> 's heap \<Rightarrow> addr \<Rightarrow> int \<Rightarrow> error + addr" where
  "select w h self N =
     (case children (h self) of
        [] \<Rightarrow> Inr self
      | c0 # cs \<Rightarrow>
          (case ucb1 w (h c0) N of
             Inl e \<Rightarrow> Inl e
           | Inr u0 \<Rightarrow> select_loop w h N (c0 # cs) c0 u0))"

subsection \<open>\<^verbatim>\<open>backpropagate\<close>\<close>

text \<open>
  The recursion follows the parent references; on a store whose parent references form a
  cycle it does not return, which is the value \<open>None\<close>.
\<close>

partial_function (option) backpropagate :: "'s heap \<Rightarrow> addr \<Rightarrow> real \<Rightarrow> 's heap option" where
  "backpropagate h self result =
     (let h' = h(self := (h self)\<lparr>visit := visit (h self) + 1, score := score (h self) + result\<rparr>)
      in case parent (h' self) of
           None \<Rightarrow> Some h'
         | Some p \<Rightarrow> backpropagate h' p (if minmax_search (h' self) then - result else result))"

subsection \<open>\<^verbatim>\<open>expand_node\<close>\<close>

text \<open>The objects that \<^verbatim>\<open>expand()\<close> creates, at consecutive unused addresses.\<close>

fun alloc_nodes :: "'s heap \<Rightarrow> addr \<Rightarrow> 's node_init list \<Rightarrow> 's heap" where
  "alloc_nodes h k [] = h"
| "alloc_nodes h k (i # is) = alloc_nodes (h(k := construct i)) (Suc k) is"

text \<open>\<^verbatim>\<open>for child in self.children: child.parent = self\<close>.\<close>

fun set_parents :: "'s heap \<Rightarrow> addr \<Rightarrow> addr list \<Rightarrow> 's heap" where
  "set_parents h self [] = h"
| "set_parents h self (child # rest) =
     set_parents (h(child := (h child)\<lparr>parent := Some self\<rparr>)) self rest"

definition expand_node :: "('s, 'g) hooks \<Rightarrow> ('s, 'g) world \<Rightarrow> addr \<Rightarrow> ('s, 'g) world" where
  "expand_node k s self =
     (let inits = expand k (payload (heap s self));
          cs = [fresh s ..< fresh s + length inits];
          h1 = alloc_nodes (heap s) (fresh s) inits;
          h2 = h1(self := (h1 self)\<lparr>children := cs\<rparr>);
          h3 = (if length (children (h2 self)) = 0
                then h2(self := (h2 self)\<lparr>is_terminal := True\<rparr>)
                else set_parents h2 self (children (h2 self)))
      in s\<lparr>heap := h3, fresh := fresh s + length inits\<rparr>)"

section \<open>The tree\<close>

subsection \<open>One search cycle: \<^verbatim>\<open>search_iter\<close>\<close>

text \<open>\<^verbatim>\<open>while len(cur.children) > 0: cur = cur.select(self.root.visit)\<close>.\<close>

partial_function (option) descend :: "real \<Rightarrow> 's heap \<Rightarrow> int \<Rightarrow> addr \<Rightarrow> addr result" where
  "descend w h N cur =
     (if length (children (h cur)) > 0 then
        (case select w h cur N of
           Inl e \<Rightarrow> Some (Inl e)
         | Inr c \<Rightarrow> descend w h N c)
      else Some (Inr cur))"

text \<open>Lines 80 to 83: the node that is simulated, and the state after the expansion.\<close>

definition expand_step ::
  "('s, 'g) hooks \<Rightarrow> ('s, 'g) world \<Rightarrow> addr \<Rightarrow> addr \<times> ('s, 'g) world" where
  "expand_step k s cur =
     (if \<not> is_terminal (heap s cur) \<and> visit (heap s cur) \<noteq> 0 then
        (let s' = expand_node k s cur
         in if \<not> is_terminal (heap s' cur) then (children (heap s' cur) ! 0, s')
            else (cur, s'))
      else (cur, s))"

text \<open>Lines 84 and 85: \<^verbatim>\<open>score = cur.simulate(); cur.backpropagate(score)\<close>.\<close>

definition simulate_backpropagate ::
  "('s, 'g) hooks \<Rightarrow> ('s, 'g) world \<Rightarrow> addr \<Rightarrow> (addr \<times> ('s, 'g) world) result" where
  "simulate_backpropagate k s cur =
     (let (r, g) = simulate k (payload (heap s cur)) (env s)
      in case backpropagate (heap s) cur r of
           None \<Rightarrow> None
         | Some h' \<Rightarrow> Some (Inr (cur, s\<lparr>heap := h', env := g\<rparr>)))"

definition search_iter ::
  "('s, 'g) hooks \<Rightarrow> ('s, 'g) world \<Rightarrow> addr \<Rightarrow> (addr \<times> ('s, 'g) world) result" where
  "search_iter k s cur =
     (case descend (exploration_weight k) (heap s) (int (visit (heap s (tree_root s)))) cur of
        None \<Rightarrow> None
      | Some (Inl e) \<Rightarrow> Some (Inl e)
      | Some (Inr leaf) \<Rightarrow>
          (case expand_step k s leaf of (c, s') \<Rightarrow> simulate_backpropagate k s' c))"

subsection \<open>\<^verbatim>\<open>search\<close>\<close>

text \<open>\<^verbatim>\<open>for _ in range(iterations): search_iter(cur)\<close>.\<close>

fun iterations_loop ::
  "('s, 'g) hooks \<Rightarrow> addr \<Rightarrow> nat \<Rightarrow> ('s, 'g) world \<Rightarrow> ('s, 'g) world result" where
  "iterations_loop k cur 0 s = Some (Inr s)"
| "iterations_loop k cur (Suc n) s =
     (case search_iter k s cur of
        None \<Rightarrow> None
      | Some (Inl e) \<Rightarrow> Some (Inl e)
      | Some (Inr (c, s')) \<Rightarrow> iterations_loop k cur n s')"

text \<open>
  The loop of the time-limited branch (line 97). Python's \<^verbatim>\<open>and\<close> reads the clock only
  when \<^verbatim>\<open>iters % CHECK_ITERATIONS != 0\<close>.
\<close>

definition CHECK_ITERATIONS :: nat where
  "CHECK_ITERATIONS = 100"

partial_function (option) time_loop ::
  "('s, 'g) hooks \<Rightarrow> addr \<Rightarrow> real \<Rightarrow> real \<Rightarrow> nat \<Rightarrow> ('s, 'g) world \<Rightarrow> (nat \<times> ('s, 'g) world) result"
  where
  "time_loop k cur start_time time_limit iters s =
     (if iters mod CHECK_ITERATIONS \<noteq> 0 then
        (case time_py k (env s) of (t, g) \<Rightarrow>
           if t - start_time < time_limit then
             (case search_iter k (s\<lparr>env := g\<rparr>) cur of
                None \<Rightarrow> None
              | Some (Inl e) \<Rightarrow> Some (Inl e)
              | Some (Inr (c, s')) \<Rightarrow> time_loop k cur start_time time_limit (iters + 1) s')
           else Some (Inr (iters, s\<lparr>env := g\<rparr>)))
      else Some (Inr (iters, s)))"

text \<open>Lines 68 to 75. Python's \<^verbatim>\<open>if x and x <= 0\<close> tests the truth value of \<open>x\<close> first.\<close>

definition check_arguments :: "int option \<Rightarrow> real option \<Rightarrow> error option" where
  "check_arguments iterations time_limit =
     (if iterations = None \<and> time_limit = None then Some NeitherGiven
      else if iterations \<noteq> None \<and> time_limit \<noteq> None then Some BothGiven
      else if (case time_limit of None \<Rightarrow> False | Some t \<Rightarrow> t \<noteq> 0 \<and> t \<le> 0)
        then Some TimeLimitNotPositive
      else if (case iterations of None \<Rightarrow> False | Some n \<Rightarrow> n \<noteq> 0 \<and> n \<le> 0)
        then Some IterationsNotPositive
      else None)"

text \<open>Lines 89 to 99: the cycles that the budget allows, from \<^verbatim>\<open>cur = self.root\<close>.\<close>

definition run_budget ::
  "('s, 'g) hooks \<Rightarrow> ('s, 'g) world \<Rightarrow> int option \<Rightarrow> real option \<Rightarrow> ('s, 'g) world result" where
  "run_budget k s iterations time_limit =
     (let cur = tree_root s in
      case iterations of
        Some n \<Rightarrow> iterations_loop k cur (nat n) s
      | None \<Rightarrow>
          (case time_py k (env s) of (start_time, g) \<Rightarrow>
             (case time_loop k cur start_time (the time_limit) 0 (s\<lparr>env := g\<rparr>) of
                None \<Rightarrow> None
              | Some (Inl e) \<Rightarrow> Some (Inl e)
              | Some (Inr (iters, s')) \<Rightarrow> Some (Inr s'))))"

text \<open>
  Lines 104 to 107: \<^verbatim>\<open>for child in self.root.children[1:]\<close>, keeping the child with the
  strictly greater visit count.
\<close>

fun best_child_loop :: "'s heap \<Rightarrow> addr list \<Rightarrow> addr \<Rightarrow> addr" where
  "best_child_loop h [] best_child = best_child"
| "best_child_loop h (child # rest) best_child =
     (if visit (h child) > visit (h best_child) then best_child_loop h rest child
      else best_child_loop h rest best_child)"

text \<open>Lines 102 to 109.\<close>

definition best_child :: "('s, 'g) world \<Rightarrow> error + addr" where
  "best_child s =
     (case children (heap s (tree_root s)) of
        [] \<Rightarrow> Inl NoChildren
      | c0 # rest \<Rightarrow> Inr (best_child_loop (heap s) rest c0))"

definition search ::
  "('s, 'g) hooks \<Rightarrow> ('s, 'g) world \<Rightarrow> int option \<Rightarrow> real option \<Rightarrow> (addr \<times> ('s, 'g) world) result"
  where
  "search k s iterations time_limit =
     (case check_arguments iterations time_limit of
        Some e \<Rightarrow> Some (Inl e)
      | None \<Rightarrow>
          (case run_budget k s iterations time_limit of
             None \<Rightarrow> None
           | Some (Inl e) \<Rightarrow> Some (Inl e)
           | Some (Inr s') \<Rightarrow>
               (case best_child s' of
                  Inl e \<Rightarrow> Some (Inl e)
                | Inr b \<Rightarrow> Some (Inr (b, s')))))"

subsection \<open>\<^verbatim>\<open>move_to\<close>\<close>

text \<open>What a caller can pass as \<^verbatim>\<open>node\<close>: a node object, \<^verbatim>\<open>None\<close>, or any other value.\<close>

datatype pyarg = PyNode addr | PyNone | PyOther

definition move_to :: "('s, 'g) world \<Rightarrow> pyarg \<Rightarrow> error + ('s, 'g) world" where
  "move_to s node =
     (case node of
        PyOther \<Rightarrow> Inl NotANode
      | PyNone \<Rightarrow> Inl NotANode
      | PyNode a \<Rightarrow>
          (let s1 = s\<lparr>tree_root := a\<rparr>
           in Inr (s1\<lparr>heap := (heap s1)(tree_root s1 := (heap s1 (tree_root s1))\<lparr>parent := None\<rparr>)\<rparr>)))"

text \<open>\<^verbatim>\<open>MonteCarloTree(root)\<close> on a node that the caller has just constructed.\<close>

definition new_tree :: "'s node_init \<Rightarrow> 'g \<Rightarrow> ('s, 'g) world" where
  "new_tree i g = \<lparr>heap = (\<lambda>a. construct i), fresh = 1, tree_root = 0, env = g\<rparr>"

section \<open>Notions used to state the properties\<close>

text \<open>
  The element that a left-to-right scan keeps when it replaces its candidate only by a
  strictly greater one: the first element with the greatest key.
\<close>

fun first_greatest :: "('a \<Rightarrow> 'k::linorder) \<Rightarrow> 'a \<Rightarrow> 'a list \<Rightarrow> 'a" where
  "first_greatest key b [] = b"
| "first_greatest key b (x # xs) =
     (if key b < key x then first_greatest key x xs else first_greatest key b xs)"

text \<open>\<open>parent_chain h a as\<close>: \<open>as\<close> lists the ancestors of \<open>a\<close>, nearest first, up to a node without parent.\<close>

fun parent_chain :: "'s heap \<Rightarrow> addr \<Rightarrow> addr list \<Rightarrow> bool" where
  "parent_chain h a [] = (parent (h a) = None)"
| "parent_chain h a (p # ps) = (parent (h a) = Some p \<and> parent_chain h p ps)"

text \<open>
  The results that \<open>a\<close> and then each of its ancestors \<open>as\<close> receive when \<open>a\<close> receives \<open>r\<close>:
  the sign flips on the way up at every node whose own flag is set.
\<close>

fun rewards :: "'s heap \<Rightarrow> addr \<Rightarrow> addr list \<Rightarrow> real \<Rightarrow> real list" where
  "rewards h a [] r = [r]"
| "rewards h a (p # ps) r = r # rewards h p ps (if minmax_search (h a) then - r else r)"

text \<open>
  The allocated objects form a tree: the root is allocated, the children of an allocated
  object are allocated later than the object itself, and a parent earlier than its child.
\<close>

definition tree_shaped :: "('s, 'g) world \<Rightarrow> bool" where
  "tree_shaped s \<longleftrightarrow>
     tree_root s < fresh s \<and>
     (\<forall>a<fresh s. \<forall>c\<in>set (children (heap s a)). a < c \<and> c < fresh s) \<and>
     (\<forall>a<fresh s. \<forall>p. parent (heap s a) = Some p \<longrightarrow> p < a)"

text \<open>An object that has children has been visited.\<close>

definition visited_before_expanded :: "('s, 'g) world \<Rightarrow> bool" where
  "visited_before_expanded s \<longleftrightarrow>
     (\<forall>a<fresh s. children (heap s a) \<noteq> [] \<longrightarrow> 1 \<le> visit (heap s a))"

text \<open>The accumulated score of an object is bounded by its visit count.\<close>

definition score_bounded :: "('s, 'g) world \<Rightarrow> bool" where
  "score_bounded s \<longleftrightarrow> (\<forall>a<fresh s. \<bar>score (heap s a)\<bar> \<le> real (visit (heap s a)))"

text \<open>
  The states that a program reaches from \<^verbatim>\<open>MonteCarloTree(root)\<close> on a new root by search
  cycles that return and by \<^verbatim>\<open>move_to\<close> on an existing node.
\<close>

inductive reachable :: "('s, 'g) hooks \<Rightarrow> ('s, 'g) world \<Rightarrow> bool" for k where
  start: "reachable k (new_tree i g)"
| cycle: "reachable k s \<Longrightarrow> search_iter k s (tree_root s) = Some (Inr (c, s')) \<Longrightarrow> reachable k s'"
| move: "reachable k s \<Longrightarrow> a < fresh s \<Longrightarrow> move_to s (PyNode a) = Inr s' \<Longrightarrow> reachable k s'"

section \<open>A small game\<close>

text \<open>
  Positions are numbered by depth; every position above depth two has two successors.
  Playouts alternate between a win and a loss, and the clock advances by one per reading.
\<close>

definition toy :: "(nat, nat) hooks" where
  "toy = \<lparr>expand = (\<lambda>p. if p < 2
              then [\<lparr>init_payload = Suc p, init_minmax = True, init_terminal = False\<rparr>,
                    \<lparr>init_payload = Suc p, init_minmax = True, init_terminal = False\<rparr>]
              else []),
          simulate = (\<lambda>p g. (if even g then 1 else - 1, Suc g)),
          time_py = (\<lambda>g. (real g, Suc g)),
          exploration_weight = default_exploration_weight\<rparr>"

definition toy_root :: "nat node_init" where
  "toy_root = \<lparr>init_payload = 0, init_minmax = True, init_terminal = False\<rparr>"

text \<open>A root that was visited twice, with one visited and one unvisited child.\<close>

definition family :: "nat heap" where
  "family =
     (\<lambda>a. init_node True 0)
       (0 := (init_node True 0)\<lparr>visit := 2, score := 0, children := [1, 2]\<rparr>,
        1 := (init_node True 1)\<lparr>visit := 1, score := 1, parent := Some 0\<rparr>,
        2 := (init_node True 1)\<lparr>parent := Some 0\<rparr>)"

definition family_world :: "(nat, nat) world" where
  "family_world = \<lparr>heap = family, fresh = 3, tree_root = 0, env = 2\<rparr>"

section \<open>Unfolding the loops\<close>

lemma descend_leaf: "children (h cur) = [] \<Longrightarrow> descend w h N cur = Some (Inr cur)"
  by (subst descend.simps) simp

lemma descend_step:
  "children (h cur) \<noteq> [] \<Longrightarrow> select w h cur N = Inr c \<Longrightarrow> descend w h N cur = descend w h N c"
  by (subst descend.simps) simp

lemma descend_error:
  "children (h cur) \<noteq> [] \<Longrightarrow> select w h cur N = Inl e \<Longrightarrow> descend w h N cur = Some (Inl e)"
  by (subst descend.simps) simp

lemma backpropagate_root:
  "parent (h a) = None \<Longrightarrow>
   backpropagate h a r = Some (h(a := (h a)\<lparr>visit := visit (h a) + 1, score := score (h a) + r\<rparr>))"
  by (subst backpropagate.simps) (simp add: Let_def)

lemma backpropagate_step:
  "parent (h a) = Some p \<Longrightarrow>
   backpropagate h a r =
     backpropagate (h(a := (h a)\<lparr>visit := visit (h a) + 1, score := score (h a) + r\<rparr>)) p
       (if minmax_search (h a) then - r else r)"
  by (subst backpropagate.simps) (simp add: Let_def)

lemma time_loop_zero: "time_loop k cur start_time limit 0 s = Some (Inr (0, s))"
  by (subst time_loop.simps) (simp add: CHECK_ITERATIONS_def)

lemma run_budget_time_limit:
  "run_budget k s None (Some t) = Some (Inr (s\<lparr>env := snd (time_py k (env s))\<rparr>))"
  by (simp add: run_budget_def time_loop_zero split: prod.splits)

lemmas toy_defs = toy_def toy_root_def new_tree_def construct_def init_node_def
  search_iter_def expand_step_def expand_node_def simulate_backpropagate_def
  select_def ucb1_def default_exploration_weight_def Let_def

lemma toy_three_cycles:
  "\<exists>s'. iterations_loop toy 0 (Suc (Suc (Suc 0))) (new_tree toy_root 0) = Some (Inr s') \<and>
     tree_root s' = 0 \<and> children (heap s' 0) = [1, 2] \<and>
     visit (heap s' 0) = 3 \<and> visit (heap s' 1) = 1 \<and> visit (heap s' 2) = 1"
  by (simp add: toy_defs descend_leaf descend_step backpropagate_root backpropagate_step upt_rec)

section \<open>The first greatest element\<close>

lemma first_greatest_split:
  "\<exists>pre post. b # cs = pre @ first_greatest key b cs # post \<and>
     (\<forall>x\<in>set pre. key x < key (first_greatest key b cs)) \<and>
     (\<forall>x\<in>set post. key x \<le> key (first_greatest key b cs))"
proof (induction cs arbitrary: b)
  case Nil
  show ?case by (intro exI [of _ "[]"]) simp
next
  case (Cons c cs)
  show ?case
  proof (cases "key b < key c")
    case True
    let ?r = "first_greatest key c cs"
    from Cons.IH [of c] obtain pre post where
      sp: "c # cs = pre @ ?r # post" and
      lt: "\<forall>x\<in>set pre. key x < key ?r" and
      le: "\<forall>x\<in>set post. key x \<le> key ?r" by blast
    have "c \<in> set (pre @ [?r])"
      using sp by (cases pre) auto
    then have "key c \<le> key ?r" using lt by auto
    then have "\<forall>x\<in>set (b # pre). key x < key ?r"
      using lt True by auto
    moreover have "b # c # cs = (b # pre) @ ?r # post" using sp by simp
    moreover have "first_greatest key b (c # cs) = ?r" using True by simp
    ultimately show ?thesis using le by metis
  next
    case False
    let ?r = "first_greatest key b cs"
    from Cons.IH [of b] obtain pre post where
      sp: "b # cs = pre @ ?r # post" and
      lt: "\<forall>x\<in>set pre. key x < key ?r" and
      le: "\<forall>x\<in>set post. key x \<le> key ?r" by blast
    have res: "first_greatest key b (c # cs) = ?r" using False by simp
    show ?thesis
    proof (cases pre)
      case Nil
      then have eq: "b # c # cs = [] @ ?r # (c # post)" and rb: "?r = b" using sp by auto
      have "\<forall>x\<in>set (c # post). key x \<le> key ?r"
        using le False rb by auto
      moreover have "\<forall>x\<in>set ([]::'a list). key x < key ?r" by simp
      ultimately show ?thesis using eq unfolding res by blast
    next
      case (Cons p pre')
      then have eq: "b # c # cs = (b # c # pre') @ ?r # post" and "p = b" using sp by auto
      then have "key b < key ?r" using lt Cons by auto
      then have "\<forall>x\<in>set (b # c # pre'). key x < key ?r"
        using lt Cons False by auto
      then show ?thesis using le eq unfolding res by blast
    qed
  qed
qed

lemma first_greatest_twice:
  "\<exists>pre post. c # cs = pre @ first_greatest key c (c # cs) # post \<and>
     (\<forall>x\<in>set pre. key x < key (first_greatest key c (c # cs))) \<and>
     (\<forall>x\<in>set post. key x \<le> key (first_greatest key c (c # cs)))"
  using first_greatest_split [of c cs key] by simp

lemma best_child_loop_first_greatest:
  "best_child_loop h cs b = first_greatest (\<lambda>x. visit (h x)) b cs"
  by (induction cs arbitrary: b) auto

lemma ucb1_visited:
  "visit n \<noteq> 0 \<Longrightarrow> 1 \<le> N \<Longrightarrow>
   ucb1 w n N = Inr (Finite (score n / real (visit n) + w * (ln (real_of_int N) / real (visit n))))"
  by (simp add: ucb1_def)

lemma select_loop_first_greatest:
  assumes "1 \<le> N" and "\<forall>x\<in>set xs. visit (h x) \<noteq> 0"
  shows "select_loop w h N xs b
           (Finite (score (h b) / real (visit (h b)) +
              w * (ln (real_of_int N) / real (visit (h b))))) =
         Inr (first_greatest
           (\<lambda>x. score (h x) / real (visit (h x)) + w * (ln (real_of_int N) / real (visit (h x))))
           b xs)"
  using assms by (induction xs arbitrary: b) (auto simp: ucb1_visited)

lemma select_loop_unvisited:
  assumes "1 \<le> N" and "\<exists>x\<in>set xs. visit (h x) = 0"
  shows "\<exists>pre r post. select_loop w h N xs b bu = Inr r \<and> xs = pre @ r # post \<and>
           visit (h r) = 0 \<and> (\<forall>x\<in>set pre. visit (h x) \<noteq> 0)"
  using assms
proof (induction xs arbitrary: b bu)
  case Nil
  then show ?case by simp
next
  case (Cons c xs)
  show ?case
  proof (cases "visit (h c) = 0")
    case True
    then have "select_loop w h N (c # xs) b bu = Inr c" by simp
    then show ?thesis using True by (intro exI [of _ "[]"]) auto
  next
    case False
    with Cons.prems have ex: "\<exists>x\<in>set xs. visit (h x) = 0" by auto
    obtain b' bu' where step:
      "select_loop w h N (c # xs) b bu = select_loop w h N xs b' bu'"
      using False Cons.prems(1) by (cases "float_gt (Finite (score (h c) / real (visit (h c)) +
          w * (ln (real_of_int N) / real (visit (h c))))) bu") (auto simp: ucb1_visited)
    from Cons.IH [OF Cons.prems(1) ex, of b' bu'] obtain pre r post where
      "select_loop w h N xs b' bu' = Inr r" "xs = pre @ r # post" "visit (h r) = 0"
      "\<forall>x\<in>set pre. visit (h x) \<noteq> 0" by blast
    then have "select_loop w h N (c # xs) b bu = Inr r \<and> c # xs = (c # pre) @ r # post \<and>
      visit (h r) = 0 \<and> (\<forall>x\<in>set (c # pre). visit (h x) \<noteq> 0)"
      using step False by simp
    then show ?thesis by blast
  qed
qed

section \<open>Parent chains and backpropagation\<close>

lemma parent_chain_unique:
  "parent_chain h a xs \<Longrightarrow> parent_chain h a ys \<Longrightarrow> xs = ys"
proof (induction xs arbitrary: a ys)
  case Nil
  then show ?case by (cases ys) auto
next
  case (Cons x xs)
  then show ?case by (cases ys) auto
qed

lemma parent_chain_drop:
  "parent_chain h a as \<Longrightarrow> i < length as \<Longrightarrow> parent_chain h (as ! i) (drop (Suc i) as)"
proof (induction as arbitrary: a i)
  case Nil
  then show ?case by simp
next
  case (Cons p ps)
  then show ?case by (cases i) auto
qed

lemma parent_chain_not_self:
  assumes "parent_chain h a as"
  shows "a \<notin> set as"
proof
  assume "a \<in> set as"
  then obtain i where i: "i < length as" "as ! i = a"
    by (auto simp: in_set_conv_nth)
  from parent_chain_drop [OF assms i(1)] i(2) have "parent_chain h a (drop (Suc i) as)"
    by simp
  with assms have "as = drop (Suc i) as" by (rule parent_chain_unique)
  then have "length as = length (drop (Suc i) as)" by (rule arg_cong)
  moreover have "length (drop (Suc i) as) < length as" using i(1) by simp
  ultimately show False by linarith
qed

lemma parent_chain_distinct:
  "parent_chain h a as \<Longrightarrow> distinct (a # as)"
proof (induction as arbitrary: a)
  case Nil
  then show ?case by simp
next
  case (Cons p ps)
  from Cons.prems have "parent_chain h p ps" by simp
  then have "distinct (p # ps)" by (rule Cons.IH)
  moreover have "a \<notin> set (p # ps)" using Cons.prems by (rule parent_chain_not_self)
  ultimately show ?case by simp
qed

lemma parent_chain_cong:
  "(\<And>x. parent (h' x) = parent (h x)) \<Longrightarrow> parent_chain h' a as = parent_chain h a as"
  by (induction as arbitrary: a) auto

lemma rewards_cong:
  "(\<And>x. minmax_search (h' x) = minmax_search (h x)) \<Longrightarrow> rewards h' a as r = rewards h a as r"
  by (induction as arbitrary: a r) auto

lemma length_rewards [simp]: "length (rewards h a as r) = Suc (length as)"
  by (induction as arbitrary: a r) auto

lemma abs_rewards: "i < Suc (length as) \<Longrightarrow> \<bar>rewards h a as r ! i\<bar> = \<bar>r\<bar>"
proof (induction as arbitrary: a r i)
  case Nil
  then show ?case by simp
next
  case (Cons p ps)
  then show ?case by (cases i) auto
qed

lemma backpropagate_chain:
  assumes "parent_chain h n as"
  shows "\<exists>h'. backpropagate h n r = Some h' \<and>
           (\<forall>i < Suc (length as). h' ((n # as) ! i) =
              (h ((n # as) ! i))\<lparr>visit := visit (h ((n # as) ! i)) + 1,
                 score := score (h ((n # as) ! i)) + rewards h n as r ! i\<rparr>) \<and>
           (\<forall>a. a \<notin> set (n # as) \<longrightarrow> h' a = h a)"
  using assms
proof (induction as arbitrary: h n r)
  case Nil
  then show ?case by (simp add: backpropagate_root)
next
  case (Cons p ps)
  let ?h1 = "h(n := (h n)\<lparr>visit := visit (h n) + 1, score := score (h n) + r\<rparr>)"
  let ?r1 = "if minmax_search (h n) then - r else r"
  from Cons.prems have par: "parent (h n) = Some p" and ch: "parent_chain h p ps" by simp_all
  have dist: "distinct (n # p # ps)" using Cons.prems by (rule parent_chain_distinct)
  have ch1: "parent_chain ?h1 p ps"
    using ch by (subst parent_chain_cong [of _ h]) simp_all
  have rw: "rewards ?h1 p ps ?r1 = rewards h p ps ?r1"
    by (rule rewards_cong) simp
  from Cons.IH [OF ch1, of ?r1] obtain h' where
    run: "backpropagate ?h1 p ?r1 = Some h'" and
    upd: "\<forall>i < Suc (length ps). h' ((p # ps) ! i) =
            (?h1 ((p # ps) ! i))\<lparr>visit := visit (?h1 ((p # ps) ! i)) + 1,
               score := score (?h1 ((p # ps) ! i)) + rewards ?h1 p ps ?r1 ! i\<rparr>" and
    frame: "\<forall>a. a \<notin> set (p # ps) \<longrightarrow> h' a = ?h1 a" by blast
  have "backpropagate h n r = Some h'"
    using run par by (simp add: backpropagate_step)
  moreover have "\<forall>i < Suc (length (p # ps)). h' ((n # p # ps) ! i) =
              (h ((n # p # ps) ! i))\<lparr>visit := visit (h ((n # p # ps) ! i)) + 1,
                 score := score (h ((n # p # ps) ! i)) + rewards h n (p # ps) r ! i\<rparr>"
  proof (intro allI impI)
    fix i assume i: "i < Suc (length (p # ps))"
    show "h' ((n # p # ps) ! i) =
              (h ((n # p # ps) ! i))\<lparr>visit := visit (h ((n # p # ps) ! i)) + 1,
                 score := score (h ((n # p # ps) ! i)) + rewards h n (p # ps) r ! i\<rparr>"
    proof (cases i)
      case 0
      have "h' n = ?h1 n" using frame dist by simp
      then show ?thesis using 0 by simp
    next
      case (Suc j)
      then have j: "j < Suc (length ps)" using i by simp
      then have "(p # ps) ! j \<in> set (p # ps)" by (metis length_Cons nth_mem)
      then have ne: "(p # ps) ! j \<noteq> n" using dist by auto
      from upd j have "h' ((p # ps) ! j) =
            (?h1 ((p # ps) ! j))\<lparr>visit := visit (?h1 ((p # ps) ! j)) + 1,
               score := score (?h1 ((p # ps) ! j)) + rewards ?h1 p ps ?r1 ! j\<rparr>" by blast
      then show ?thesis using Suc ne rw by simp
    qed
  qed
  moreover have "\<forall>a. a \<notin> set (n # p # ps) \<longrightarrow> h' a = h a"
    using frame by simp
  ultimately show ?case by blast
qed

section \<open>Properties of the node operations\<close>

text \<open>
  C6. For every node and every \<open>N \<ge> 1\<close>, \<^verbatim>\<open>ucb1(N)\<close> is positive infinity exactly when the
  visit count is 0; otherwise it is \<open>score / visit + exploration_weight * log N / visit\<close>, and
  the weight is 1 by default.
\<close>

theorem ucb1_value:
  assumes "1 \<le> N"
  shows "(ucb1 w n N = Inr PosInf \<longleftrightarrow> visit n = 0) \<and>
     (visit n \<noteq> 0 \<longrightarrow>
        ucb1 w n N =
          Inr (Finite (score n / real (visit n) + w * (ln (real_of_int N) / real (visit n))))) \<and>
     (visit n \<noteq> 0 \<longrightarrow>
        ucb1 default_exploration_weight n N =
          Inr (Finite (score n / real (visit n) + ln (real_of_int N) / real (visit n))))"
  using assms by (simp add: ucb1_def default_exploration_weight_def)

theorem ucb1_value_witness:
  "(1::int) \<le> 2 \<and> ucb1 1 (family 2) 2 = Inr PosInf \<and>
   ucb1 default_exploration_weight (family 1) 2 = Inr (Finite (1 + ln 2))"
proof -
  have le: "(1::int) \<le> 2" by simp
  have v2: "visit (family 2) = 0" and v1: "visit (family 1) \<noteq> 0"
    by (simp_all add: family_def init_node_def)
  from ucb1_value [OF le, of 1 "family 2"] v2 have "ucb1 1 (family 2) 2 = Inr PosInf"
    by blast
  moreover from ucb1_value [OF le, of 1 "family 1"] v1
  have "ucb1 default_exploration_weight (family 1) 2 =
      Inr (Finite (score (family 1) / real (visit (family 1)) +
        ln (real_of_int 2) / real (visit (family 1))))"
    by blast
  then have "ucb1 default_exploration_weight (family 1) 2 = Inr (Finite (1 + ln 2))"
    by (simp add: family_def init_node_def)
  ultimately show ?thesis using le by blast
qed

text \<open>
  C5, as amended. For a node with children, \<^verbatim>\<open>select(N)\<close> with \<open>N \<ge> 1\<close>, or with any \<open>N\<close> when
  the first child is unvisited, returns the first child in list order whose visit count is
  0 if there is one, and otherwise the first child with the greatest \<^verbatim>\<open>ucb1(N)\<close>. For
  \<open>N \<le> 0\<close> and a visited first child it raises the domain error of the logarithm.
\<close>

lemma select_unvisited:
  assumes cs: "children (h self) = c0 # cs"
    and dom: "1 \<le> N \<or> visit (h c0) = 0"
    and ex: "\<exists>x\<in>set (c0 # cs). visit (h x) = 0"
  shows "\<exists>pre r post. select w h self N = Inr r \<and> c0 # cs = pre @ r # post \<and>
           visit (h r) = 0 \<and> (\<forall>x\<in>set pre. visit (h x) \<noteq> 0)"
proof (cases "visit (h c0) = 0")
  case True
  then have "select w h self N = Inr c0"
    by (simp add: select_def cs ucb1_def)
  moreover have "c0 # cs = [] @ c0 # cs" by simp
  moreover have "\<forall>x\<in>set ([]::addr list). visit (h x) \<noteq> 0" by simp
  ultimately show ?thesis using True by blast
next
  case False
  with dom have N: "1 \<le> N" by simp
  have "ucb1 w (h c0) N = Inr (Finite (score (h c0) / real (visit (h c0)) +
      w * (ln (real_of_int N) / real (visit (h c0)))))"
    using False N by (rule ucb1_visited)
  then have "select w h self N = select_loop w h N (c0 # cs) c0
      (Finite (score (h c0) / real (visit (h c0)) + w * (ln (real_of_int N) / real (visit (h c0)))))"
    by (simp add: select_def cs)
  then show ?thesis using select_loop_unvisited [OF N ex] by simp
qed

lemma select_all_visited:
  assumes cs: "children (h self) = c0 # cs"
    and N: "1 \<le> N"
    and vis: "\<forall>x\<in>set (c0 # cs). visit (h x) \<noteq> 0"
  shows "\<exists>pre r post. select w h self N = Inr r \<and> c0 # cs = pre @ r # post \<and>
           (\<forall>x\<in>set pre. \<exists>u v. ucb1 w (h x) N = Inr u \<and> ucb1 w (h r) N = Inr v \<and> float_gt v u) \<and>
           (\<forall>x\<in>set post. \<exists>u v. ucb1 w (h x) N = Inr u \<and> ucb1 w (h r) N = Inr v \<and>
              \<not> float_gt u v)"
proof -
  let ?V = "\<lambda>x. score (h x) / real (visit (h x)) + w * (ln (real_of_int N) / real (visit (h x)))"
  let ?r = "first_greatest ?V c0 (c0 # cs)"
  have ucb: "ucb1 w (h x) N = Inr (Finite (?V x))" if "x \<in> set (c0 # cs)" for x
  proof -
    from that vis have "visit (h x) \<noteq> 0" by blast
    then show ?thesis using N by (rule ucb1_visited)
  qed
  have "select w h self N = select_loop w h N (c0 # cs) c0 (Finite (?V c0))"
    using ucb [of c0] by (simp add: select_def cs)
  then have res: "select w h self N = Inr ?r"
    using select_loop_first_greatest [OF N vis] by simp
  from first_greatest_twice [of c0 cs ?V] obtain pre post where
    sp: "c0 # cs = pre @ ?r # post" and
    lt: "\<forall>x\<in>set pre. ?V x < ?V ?r" and
    le: "\<forall>x\<in>set post. ?V x \<le> ?V ?r" by blast
  have seteq: "set (c0 # cs) = set (pre @ ?r # post)" by (rule arg_cong [OF sp])
  have sub: "set pre \<subseteq> set (c0 # cs)" "set post \<subseteq> set (c0 # cs)" "?r \<in> set (c0 # cs)"
    unfolding seteq by auto
  have ur: "ucb1 w (h ?r) N = Inr (Finite (?V ?r))" using sub(3) by (rule ucb)
  have before: "\<forall>x\<in>set pre. \<exists>u v. ucb1 w (h x) N = Inr u \<and> ucb1 w (h ?r) N = Inr v \<and>
      float_gt v u"
  proof
    fix x assume x: "x \<in> set pre"
    then have "ucb1 w (h x) N = Inr (Finite (?V x))" using sub(1) by (intro ucb) blast
    moreover have "float_gt (Finite (?V ?r)) (Finite (?V x))" using lt x by simp
    ultimately show "\<exists>u v. ucb1 w (h x) N = Inr u \<and> ucb1 w (h ?r) N = Inr v \<and> float_gt v u"
      using ur by blast
  qed
  have after: "\<forall>x\<in>set post. \<exists>u v. ucb1 w (h x) N = Inr u \<and> ucb1 w (h ?r) N = Inr v \<and>
      \<not> float_gt u v"
  proof
    fix x assume x: "x \<in> set post"
    then have "ucb1 w (h x) N = Inr (Finite (?V x))" using sub(2) by (intro ucb) blast
    moreover have "\<not> float_gt (Finite (?V x)) (Finite (?V ?r))"
      using le x by (simp add: not_less)
    ultimately show "\<exists>u v. ucb1 w (h x) N = Inr u \<and> ucb1 w (h ?r) N = Inr v \<and>
        \<not> float_gt u v"
      using ur by blast
  qed
  show ?thesis
    by (rule exI [of _ pre], rule exI [of _ ?r], rule exI [of _ post])
      (use res sp before after in blast)
qed

theorem select_policy:
  assumes "children (h self) \<noteq> []"
  shows "(1 \<le> N \<or> visit (h (children (h self) ! 0)) = 0 \<longrightarrow>
      (\<exists>pre r post. select w h self N = Inr r \<and> children (h self) = pre @ r # post \<and>
         ((\<exists>x\<in>set (children (h self)). visit (h x) = 0) \<longrightarrow>
            visit (h r) = 0 \<and> (\<forall>x\<in>set pre. visit (h x) \<noteq> 0)) \<and>
         ((\<forall>x\<in>set (children (h self)). visit (h x) \<noteq> 0) \<longrightarrow>
            (\<forall>x\<in>set pre. \<exists>u v. ucb1 w (h x) N = Inr u \<and> ucb1 w (h r) N = Inr v \<and> float_gt v u) \<and>
            (\<forall>x\<in>set post. \<exists>u v. ucb1 w (h x) N = Inr u \<and> ucb1 w (h r) N = Inr v \<and>
               \<not> float_gt u v)))) \<and>
    (N \<le> 0 \<and> visit (h (children (h self) ! 0)) \<noteq> 0 \<longrightarrow>
      select w h self N = Inl MathDomainError)"
proof (intro conjI impI)
  from assms obtain c0 cs where cs: "children (h self) = c0 # cs"
    by (cases "children (h self)") auto
  {
    assume "N \<le> 0 \<and> visit (h (children (h self) ! 0)) \<noteq> 0"
    then show "select w h self N = Inl MathDomainError"
      by (simp add: select_def cs ucb1_def)
  }
  {
    assume "1 \<le> N \<or> visit (h (children (h self) ! 0)) = 0"
    then have dom: "1 \<le> N \<or> visit (h c0) = 0" by (simp add: cs)
    show "\<exists>pre r post. select w h self N = Inr r \<and> children (h self) = pre @ r # post \<and>
         ((\<exists>x\<in>set (children (h self)). visit (h x) = 0) \<longrightarrow>
            visit (h r) = 0 \<and> (\<forall>x\<in>set pre. visit (h x) \<noteq> 0)) \<and>
         ((\<forall>x\<in>set (children (h self)). visit (h x) \<noteq> 0) \<longrightarrow>
            (\<forall>x\<in>set pre. \<exists>u v. ucb1 w (h x) N = Inr u \<and> ucb1 w (h r) N = Inr v \<and> float_gt v u) \<and>
            (\<forall>x\<in>set post. \<exists>u v. ucb1 w (h x) N = Inr u \<and> ucb1 w (h r) N = Inr v \<and>
               \<not> float_gt u v))"
    proof (cases "\<exists>x\<in>set (c0 # cs). visit (h x) = 0")
      case True
      then have no: "\<not> (\<forall>x\<in>set (c0 # cs). visit (h x) \<noteq> 0)" by blast
      from select_unvisited [OF cs dom True, of w] obtain pre r post where
        f: "select w h self N = Inr r" "c0 # cs = pre @ r # post" "visit (h r) = 0"
          "\<forall>x\<in>set pre. visit (h x) \<noteq> 0" by blast
      show ?thesis unfolding cs
        by (rule exI [of _ pre], rule exI [of _ r], rule exI [of _ post])
          (use f no in blast)
    next
      case False
      then have vis: "\<forall>x\<in>set (c0 # cs). visit (h x) \<noteq> 0" by auto
      then have "visit (h c0) \<noteq> 0" by simp
      with dom have N: "1 \<le> N" by blast
      from select_all_visited [OF cs N vis, of w] obtain pre r post where
        f: "select w h self N = Inr r" "c0 # cs = pre @ r # post"
          "\<forall>x\<in>set pre. \<exists>u v. ucb1 w (h x) N = Inr u \<and> ucb1 w (h r) N = Inr v \<and> float_gt v u"
          "\<forall>x\<in>set post. \<exists>u v. ucb1 w (h x) N = Inr u \<and> ucb1 w (h r) N = Inr v \<and>
              \<not> float_gt u v" by blast
      show ?thesis unfolding cs
        by (rule exI [of _ pre], rule exI [of _ r], rule exI [of _ post])
          (use f False in blast)
    qed
  }
qed

theorem select_policy_witness:
  "children (family 0) \<noteq> [] \<and> (1::int) \<le> 2 \<and> select 1 family 0 2 = Inr 2"
proof -
  have ch: "children (family 0) = [1, 2]" by (simp add: family_def init_node_def)
  then have ne: "children (family 0) \<noteq> []" by simp
  have v1: "visit (family 1) \<noteq> 0" and v2: "visit (family 2) = 0"
    by (simp_all add: family_def init_node_def)
  have ex: "\<exists>x\<in>set (children (family 0)). visit (family x) = 0" using ch v2 by simp
  have "(1::int) \<le> 2 \<or> visit (family (children (family 0) ! 0)) = 0" by simp
  with select_policy [where h = family and self = 0 and N = 2 and w = 1, OF ne]
  have "\<exists>pre r post. select 1 family 0 2 = Inr r \<and> children (family 0) = pre @ r # post \<and>
         ((\<exists>x\<in>set (children (family 0)). visit (family x) = 0) \<longrightarrow>
            visit (family r) = 0 \<and> (\<forall>x\<in>set pre. visit (family x) \<noteq> 0))"
    by blast
  then obtain pre r post where
    sel: "select 1 family 0 2 = Inr r" and sp: "children (family 0) = pre @ r # post" and
    r0: "visit (family r) = 0"
    using ex by blast
  have "r \<in> set (children (family 0))" by (subst sp) simp
  then have "r = 1 \<or> r = 2" using ch by simp
  with r0 v1 have "r = 2" by auto
  with sel ne show ?thesis by simp
qed

theorem select_raises_counterexample:
  "children (family 0) = [1, 2] \<and> visit (family 2) = 0 \<and>
   select 1 family 0 0 = Inl MathDomainError"
  by (simp add: family_def init_node_def select_def ucb1_def)

text \<open>
  C4. \<^verbatim>\<open>backpropagate(r)\<close> on a node \<open>n\<close> whose parent references lead through the ancestors
  \<open>as\<close> to a node without parent returns, having added 1 to the visit count of \<open>n\<close> and of
  every ancestor exactly once, \<open>r\<close> to the score of \<open>n\<close>, and to the score of each ancestor
  the result handed up to it, whose sign each node on the way flips when its own
  \<^verbatim>\<open>minmax_search\<close> is set; no other object changes.
\<close>

theorem backpropagate_updates_ancestors:
  assumes "parent_chain h n as"
  shows "\<exists>h'. backpropagate h n r = Some h' \<and> distinct (n # as) \<and>
           (\<forall>i < Suc (length as). h' ((n # as) ! i) =
              (h ((n # as) ! i))\<lparr>visit := visit (h ((n # as) ! i)) + 1,
                 score := score (h ((n # as) ! i)) + rewards h n as r ! i\<rparr>) \<and>
           rewards h n as r ! 0 = r \<and>
           (as \<noteq> [] \<longrightarrow> rewards h n as r ! 1 = (if minmax_search (h n) then - r else r)) \<and>
           (\<forall>a. a \<notin> set (n # as) \<longrightarrow> h' a = h a)"
proof -
  have "rewards h n as r ! 0 = r" by (cases as) simp_all
  moreover have "as \<noteq> [] \<longrightarrow> rewards h n as r ! 1 = (if minmax_search (h n) then - r else r)"
  proof (cases as)
    case Nil
    then show ?thesis by simp
  next
    case (Cons p ps)
    then show ?thesis by (cases ps) simp_all
  qed
  moreover have "distinct (n # as)" using assms by (rule parent_chain_distinct)
  ultimately show ?thesis using backpropagate_chain [OF assms, of r] by blast
qed

theorem backpropagate_updates_ancestors_witness:
  "parent_chain family 1 [0] \<and>
   (\<exists>h'. backpropagate family 1 1 = Some h' \<and>
      visit (h' 1) = 2 \<and> score (h' 1) = 2 \<and> visit (h' 0) = 3 \<and> score (h' 0) = - 1 \<and>
      h' 2 = family 2)"
proof -
  have ch: "parent_chain family 1 [0]" by (simp add: family_def init_node_def)
  from backpropagate_updates_ancestors [OF ch, of 1] obtain h' where
    run: "backpropagate family 1 1 = Some h'" and
    upd: "\<forall>i < Suc (length [0::nat]). h' (([1, 0]::nat list) ! i) =
              (family ([1, 0] ! i))\<lparr>visit := visit (family ([1, 0] ! i)) + 1,
                 score := score (family ([1, 0] ! i)) + rewards family 1 [0] 1 ! i\<rparr>" and
    frame: "\<forall>a. a \<notin> set [1, 0::nat] \<longrightarrow> h' a = family a"
    by blast
  from upd have "h' 1 = (family 1)\<lparr>visit := visit (family 1) + 1,
      score := score (family 1) + rewards family 1 [0] 1 ! 0\<rparr>"
    by (metis length_Cons list.size(3) nth_Cons_0 zero_less_Suc)
  then have one: "visit (h' 1) = 2 \<and> score (h' 1) = 2"
    by (simp add: family_def init_node_def)
  from upd have "h' (([1, 0]::nat list) ! 1) = (family ([1, 0] ! 1))\<lparr>visit := visit (family ([1, 0] ! 1)) + 1,
      score := score (family ([1, 0] ! 1)) + rewards family 1 [0] 1 ! 1\<rparr>"
    by (metis One_nat_def length_Cons lessI list.size(3))
  then have zero: "visit (h' 0) = 3 \<and> score (h' 0) = - 1"
    by (simp add: family_def init_node_def)
  from frame have "h' 2 = family 2" by simp
  with ch run one zero show ?thesis by blast
qed

section \<open>Properties of the tree operations\<close>

text \<open>
  C1. The claim that a time-limited search runs cycles until the budget is exceeded, and at
  least one, does not hold of the code: the loop condition
  \<^verbatim>\<open>iters % CHECK_ITERATIONS != 0 and ...\<close> is false at \<open>iters = 0\<close>, so the loop body never
  runs. The budget phase only reads the clock once, and on a fresh root \<^verbatim>\<open>search\<close> then
  raises the error for a root without children.
\<close>

theorem time_limited_search_runs_no_cycle:
  "time_loop k cur start_time limit 0 s = Some (Inr (0, s)) \<and>
   run_budget k s None (Some t) = Some (Inr (s\<lparr>env := snd (time_py k (env s))\<rparr>)) \<and>
   search k (new_tree i g) None (Some 1) = Some (Inl NoChildren)"
  by (simp add: time_loop_zero run_budget_time_limit search_def check_arguments_def
      best_child_def new_tree_def construct_def init_node_def)

text \<open>
  C2. The claim that a bound of exactly 0 is rejected does not hold of the code:
  \<^verbatim>\<open>if iterations and iterations <= 0\<close> is false for 0, so no argument error is raised; no
  cycle runs and \<^verbatim>\<open>search\<close> goes on to pick the most visited child of the root.
\<close>

theorem zero_bound_is_not_rejected:
  "check_arguments (Some 0) None = None \<and> check_arguments None (Some 0) = None \<and>
   search k s (Some 0) None =
     (case best_child s of Inl e \<Rightarrow> Some (Inl e) | Inr b \<Rightarrow> Some (Inr (b, s))) \<and>
   search toy family_world (Some 0) None = Some (Inr (1, family_world))"
  by (simp add: search_def check_arguments_def run_budget_def best_child_def
      family_world_def family_def init_node_def)

text \<open>The other argument errors are raised before anything else happens.\<close>

lemma search_argument_errors:
  "search k s None None = Some (Inl NeitherGiven)"
  "search k s (Some n) (Some t) = Some (Inl BothGiven)"
  "n < 0 \<Longrightarrow> search k s (Some n) None = Some (Inl IterationsNotPositive)"
  "t < 0 \<Longrightarrow> search k s None (Some t) = Some (Inl TimeLimitNotPositive)"
  by (simp_all add: search_def check_arguments_def)

text \<open>
  C3. When the arguments are accepted and the budget phase completes in state \<open>s'\<close>,
  \<^verbatim>\<open>search\<close> raises the state error if the root has no children, and otherwise returns the
  child of the root with the greatest visit count, the first such child in list order.
\<close>

theorem search_returns_most_visited:
  assumes "check_arguments iterations time_limit = None"
    and "run_budget k s iterations time_limit = Some (Inr s')"
  shows "(children (heap s' (tree_root s')) = [] \<longrightarrow>
            search k s iterations time_limit = Some (Inl NoChildren)) \<and>
         (children (heap s' (tree_root s')) \<noteq> [] \<longrightarrow>
            (\<exists>pre r post. search k s iterations time_limit = Some (Inr (r, s')) \<and>
               children (heap s' (tree_root s')) = pre @ r # post \<and>
               (\<forall>x\<in>set pre. visit (heap s' x) < visit (heap s' r)) \<and>
               (\<forall>x\<in>set post. visit (heap s' x) \<le> visit (heap s' r))))"
proof (intro conjI impI)
  assume "children (heap s' (tree_root s')) = []"
  then show "search k s iterations time_limit = Some (Inl NoChildren)"
    using assms by (simp add: search_def best_child_def)
next
  assume "children (heap s' (tree_root s')) \<noteq> []"
  then obtain c0 rest where cs: "children (heap s' (tree_root s')) = c0 # rest"
    by (cases "children (heap s' (tree_root s'))") auto
  let ?r = "first_greatest (\<lambda>x. visit (heap s' x)) c0 rest"
  have "search k s iterations time_limit = Some (Inr (?r, s'))"
    using assms by (simp add: search_def best_child_def cs best_child_loop_first_greatest)
  moreover from first_greatest_split [of c0 rest "\<lambda>x. visit (heap s' x)"] obtain pre post where
    "c0 # rest = pre @ ?r # post"
    "\<forall>x\<in>set pre. visit (heap s' x) < visit (heap s' ?r)"
    "\<forall>x\<in>set post. visit (heap s' x) \<le> visit (heap s' ?r)" by blast
  ultimately show "\<exists>pre r post. search k s iterations time_limit = Some (Inr (r, s')) \<and>
               children (heap s' (tree_root s')) = pre @ r # post \<and>
               (\<forall>x\<in>set pre. visit (heap s' x) < visit (heap s' r)) \<and>
               (\<forall>x\<in>set post. visit (heap s' x) \<le> visit (heap s' r))"
    unfolding cs by blast
qed

theorem search_returns_most_visited_witness:
  "check_arguments (Some 3) None = None \<and>
   (\<exists>s'. run_budget toy (new_tree toy_root 0) (Some 3) None = Some (Inr s') \<and>
      children (heap s' (tree_root s')) = [1, 2] \<and>
      visit (heap s' 1) = 1 \<and> visit (heap s' 2) = 1 \<and>
      search toy (new_tree toy_root 0) (Some 3) None = Some (Inr (1, s')))"
proof -
  have args: "check_arguments (Some 3) None = None" by (simp add: check_arguments_def)
  have n3: "nat 3 = Suc (Suc (Suc 0))" by simp
  have r0: "tree_root (new_tree toy_root (0::nat)) = 0" by (simp add: new_tree_def)
  from toy_three_cycles obtain s' where
    it: "iterations_loop toy 0 (Suc (Suc (Suc 0))) (new_tree toy_root 0) = Some (Inr s')" and
    root: "tree_root s' = 0" and ch: "children (heap s' 0) = [1, 2]" and
    v: "visit (heap s' 1) = 1" "visit (heap s' 2) = 1"
    by blast
  have run: "run_budget toy (new_tree toy_root 0) (Some 3) None = Some (Inr s')"
    by (simp only: run_budget_def Let_def option.case n3 r0 it)
  have ne: "children (heap s' (tree_root s')) \<noteq> []" using root ch by simp
  from search_returns_most_visited [OF args run] ne obtain pre r post where
    res: "search toy (new_tree toy_root 0) (Some 3) None = Some (Inr (r, s'))" and
    sp: "children (heap s' (tree_root s')) = pre @ r # post" and
    lt: "\<forall>x\<in>set pre. visit (heap s' x) < visit (heap s' r)"
    by blast
  have sp': "[1, 2] = pre @ r # post" using sp root ch by simp
  have "pre = []"
  proof (rule ccontr)
    assume "pre \<noteq> []"
    then obtain p pre' where p: "pre = p # pre'" by (cases pre) auto
    with sp' have "p = 1" by simp
    from sp' p have "r \<in> set [2::nat]" by (cases pre') auto
    then have "r = 2" by simp
    with lt p \<open>p = 1\<close> v show False by simp
  qed
  with sp' have "r = 1" by simp
  with res args run root ch v show ?thesis by auto
qed

text \<open>
  C8. \<^verbatim>\<open>move_to(n)\<close> on a node makes \<open>n\<close> the root and clears its parent reference; the visit
  count, score, children and terminal flag of \<open>n\<close> and every other object stay as they were.
\<close>

theorem move_to_reroots:
  "\<exists>s'. move_to s (PyNode n) = Inr s' \<and> tree_root s' = n \<and>
     parent (heap s' n) = None \<and>
     visit (heap s' n) = visit (heap s n) \<and> score (heap s' n) = score (heap s n) \<and>
     children (heap s' n) = children (heap s n) \<and>
     is_terminal (heap s' n) = is_terminal (heap s n) \<and>
     minmax_search (heap s' n) = minmax_search (heap s n) \<and>
     payload (heap s' n) = payload (heap s n) \<and>
     (\<forall>a. a \<noteq> n \<longrightarrow> heap s' a = heap s a) \<and>
     fresh s' = fresh s \<and> env s' = env s"
  by (simp add: move_to_def)

theorem move_to_reroots_witness:
  "\<exists>s'. move_to family_world (PyNode 1) = Inr s' \<and> tree_root s' = 1 \<and>
     parent (heap s' 1) = None \<and> visit (heap s' 1) = 1 \<and> score (heap s' 1) = 1 \<and>
     heap s' 0 = family 0 \<and> heap s' 2 = family 2"
proof -
  from move_to_reroots [of family_world 1] obtain s' where
    m: "move_to family_world (PyNode 1) = Inr s'" "tree_root s' = 1"
      "parent (heap s' 1) = None"
      "visit (heap s' 1) = visit (heap family_world 1)"
      "score (heap s' 1) = score (heap family_world 1)"
      "\<forall>a. a \<noteq> 1 \<longrightarrow> heap s' a = heap family_world a"
    by blast
  from m(6) have "heap s' 0 = family 0" "heap s' 2 = family 2"
    by (simp_all add: family_world_def)
  moreover have "visit (heap family_world 1) = 1" "score (heap family_world 1) = 1"
    by (simp_all add: family_world_def family_def init_node_def)
  ultimately show ?thesis using m by auto
qed

section \<open>The shape of the tree\<close>

text \<open>What \<^verbatim>\<open>expand_node\<close> leaves at each address.\<close>

lemma alloc_nodes_apply:
  "alloc_nodes h k is a = (if k \<le> a \<and> a < k + length is then construct (is ! (a - k)) else h a)"
proof (induction "is" arbitrary: h k)
  case Nil
  then show ?case by auto
next
  case (Cons i "is")
  have eq: "alloc_nodes (h(k := construct i)) (Suc k) is a =
      (if Suc k \<le> a \<and> a < Suc k + length is then construct (is ! (a - Suc k))
       else (h(k := construct i)) a)"
    by (rule Cons.IH)
  show ?case unfolding alloc_nodes.simps eq
    by (auto simp: nth_Cons' Suc_diff_le)
qed

lemma set_parents_apply:
  "set_parents h self cs a = (if a \<in> set cs then (h a)\<lparr>parent := Some self\<rparr> else h a)"
  by (induction cs arbitrary: h) auto

lemma expand_node_heap:
  assumes "leaf < fresh s"
  shows "heap (expand_node k s leaf) a =
     (if a = leaf then
        (heap s leaf)\<lparr>children := [fresh s ..< fresh s + length (expand k (payload (heap s leaf)))],
           is_terminal := (expand k (payload (heap s leaf)) = [] \<or> is_terminal (heap s leaf))\<rparr>
      else if fresh s \<le> a \<and> a < fresh s + length (expand k (payload (heap s leaf))) then
        (construct (expand k (payload (heap s leaf)) ! (a - fresh s)))\<lparr>parent := Some leaf\<rparr>
      else heap s a)"
  using assms by (auto simp: expand_node_def Let_def alloc_nodes_apply set_parents_apply)

lemma expand_node_fields [simp]:
  "fresh (expand_node k s leaf) = fresh s + length (expand k (payload (heap s leaf)))"
  "tree_root (expand_node k s leaf) = tree_root s"
  "env (expand_node k s leaf) = env s"
  by (simp_all add: expand_node_def Let_def)

lemma select_member:
  assumes "children (h self) \<noteq> []" and "1 \<le> N"
  shows "\<exists>c\<in>set (children (h self)). select w h self N = Inr c"
proof -
  from assms(1) obtain c0 cs where cs: "children (h self) = c0 # cs"
    by (cases "children (h self)") auto
  show ?thesis
  proof (cases "\<exists>x\<in>set (c0 # cs). visit (h x) = 0")
    case True
    from select_unvisited [OF cs _ True, of N w] assms(2) obtain pre r post where
      "select w h self N = Inr r" "c0 # cs = pre @ r # post" by blast
    moreover from this have "set (c0 # cs) = set (pre @ r # post)" by (intro arg_cong [of _ _ set])
    ultimately show ?thesis unfolding cs by auto
  next
    case False
    then have "\<forall>x\<in>set (c0 # cs). visit (h x) \<noteq> 0" by auto
    from select_all_visited [OF cs assms(2) this, of w] obtain pre r post where
      "select w h self N = Inr r" "c0 # cs = pre @ r # post" by blast
    moreover from this have "set (c0 # cs) = set (pre @ r # post)" by (intro arg_cong [of _ _ set])
    ultimately show ?thesis unfolding cs by auto
  qed
qed

lemma descend_total:
  assumes ch: "\<forall>a<F. \<forall>c\<in>set (children (h a)). a < c \<and> c < F"
    and N: "1 \<le> N"
    and cur: "cur < F"
  shows "\<exists>leaf. descend w h N cur = Some (Inr leaf) \<and> leaf < F \<and> children (h leaf) = []"
  using cur
proof (induction "F - cur" arbitrary: cur rule: less_induct)
  case less
  show ?case
  proof (cases "children (h cur) = []")
    case True
    then show ?thesis using less.prems by (simp add: descend_leaf)
  next
    case False
    from select_member [where h = h and self = cur and w = w, OF False N] obtain c where
      c: "c \<in> set (children (h cur))" and sel: "select w h cur N = Inr c" by blast
    from ch less.prems c have "cur < c" "c < F" by blast+
    then have "F - c < F - cur" by simp
    from less.hyps [OF this \<open>c < F\<close>] obtain leaf where
      "descend w h N c = Some (Inr leaf)" "leaf < F" "children (h leaf) = []" by blast
    then show ?thesis using descend_step [OF False sel] by simp
  qed
qed

lemma descend_result:
  assumes "descend w h N cur = Some y"
  shows "\<forall>leaf. y = Inr leaf \<longrightarrow> children (h leaf) = []"
proof (rule descend.raw_induct
    [where P = "\<lambda>w h N cur y. \<forall>leaf. y = Inr leaf \<longrightarrow> children (h leaf) = []"], goal_cases)
  case (1 d w h N cur y)
  then show ?case by (auto split: if_splits sum.splits)
next
  case 2
  show "descend w h N cur = Some y" by (rule assms)
qed

lemma descend_childless:
  "descend w h N cur = Some (Inr leaf) \<Longrightarrow> children (h leaf) = []"
  using descend_result by blast

lemma parent_chain_exists:
  assumes par: "\<forall>a<F. \<forall>p. parent (h a) = Some p \<longrightarrow> p < a"
    and a: "a < F"
  shows "\<exists>as. parent_chain h a as"
  using a
proof (induction a rule: less_induct)
  case (less a)
  show ?case
  proof (cases "parent (h a)")
    case None
    then have "parent_chain h a []" by simp
    then show ?thesis ..
  next
    case (Some p)
    with par less.prems have "p < a" by blast
    with less.prems have "p < F" by simp
    from less.IH [OF \<open>p < a\<close> this] obtain ps where "parent_chain h p ps" ..
    with Some have "parent_chain h a (p # ps)" by simp
    then show ?thesis ..
  qed
qed

lemma backpropagate_frame:
  assumes "parent_chain h c as"
  shows "\<exists>h'. backpropagate h c r = Some h' \<and>
           (\<forall>a. children (h' a) = children (h a) \<and> parent (h' a) = parent (h a) \<and>
                is_terminal (h' a) = is_terminal (h a) \<and>
                minmax_search (h' a) = minmax_search (h a) \<and> payload (h' a) = payload (h a) \<and>
                visit (h a) \<le> visit (h' a) \<and>
                (\<bar>r\<bar> \<le> 1 \<longrightarrow> \<bar>score (h a)\<bar> \<le> real (visit (h a)) \<longrightarrow>
                   \<bar>score (h' a)\<bar> \<le> real (visit (h' a))))"
proof -
  from backpropagate_chain [OF assms, of r] obtain h' where
    run: "backpropagate h c r = Some h'" and
    upd: "\<forall>i < Suc (length as). h' ((c # as) ! i) =
              (h ((c # as) ! i))\<lparr>visit := visit (h ((c # as) ! i)) + 1,
                 score := score (h ((c # as) ! i)) + rewards h c as r ! i\<rparr>" and
    frame: "\<forall>a. a \<notin> set (c # as) \<longrightarrow> h' a = h a" by blast
  have "children (h' a) = children (h a) \<and> parent (h' a) = parent (h a) \<and>
        is_terminal (h' a) = is_terminal (h a) \<and>
        minmax_search (h' a) = minmax_search (h a) \<and> payload (h' a) = payload (h a) \<and>
        visit (h a) \<le> visit (h' a) \<and>
        (\<bar>r\<bar> \<le> 1 \<longrightarrow> \<bar>score (h a)\<bar> \<le> real (visit (h a)) \<longrightarrow>
           \<bar>score (h' a)\<bar> \<le> real (visit (h' a)))" for a
  proof (cases "a \<in> set (c # as)")
    case False
    with frame have "h' a = h a" by blast
    then show ?thesis by simp
  next
    case True
    then obtain i where i: "i < Suc (length as)" "(c # as) ! i = a"
      by (metis in_set_conv_nth length_Cons)
    with upd have eq: "h' a = (h a)\<lparr>visit := visit (h a) + 1,
        score := score (h a) + rewards h c as r ! i\<rparr>" by blast
    have "\<bar>rewards h c as r ! i\<bar> = \<bar>r\<bar>" using i(1) by (rule abs_rewards)
    then show ?thesis unfolding eq by auto
  qed
  with run show ?thesis by blast
qed

lemma expand_node_children:
  assumes "leaf < fresh s"
  shows "children (heap (expand_node k s leaf) a) =
     (if a = leaf then [fresh s ..< fresh s + length (expand k (payload (heap s leaf)))]
      else if fresh s \<le> a \<and> a < fresh s + length (expand k (payload (heap s leaf))) then []
      else children (heap s a))"
  by (simp add: expand_node_heap [OF assms] construct_def init_node_def)

lemma expand_node_parent:
  assumes "leaf < fresh s"
  shows "parent (heap (expand_node k s leaf) a) =
     (if a = leaf then parent (heap s leaf)
      else if fresh s \<le> a \<and> a < fresh s + length (expand k (payload (heap s leaf)))
        then Some leaf
      else parent (heap s a))"
  by (simp add: expand_node_heap [OF assms] construct_def init_node_def)

lemma expand_node_visit:
  assumes "leaf < fresh s"
  shows "visit (heap (expand_node k s leaf) a) =
     (if a \<noteq> leaf \<and> fresh s \<le> a \<and> a < fresh s + length (expand k (payload (heap s leaf)))
      then 0 else visit (heap s a))"
  by (simp add: expand_node_heap [OF assms] construct_def init_node_def)

lemma expand_node_score_field:
  assumes "leaf < fresh s"
  shows "score (heap (expand_node k s leaf) a) =
     (if a \<noteq> leaf \<and> fresh s \<le> a \<and> a < fresh s + length (expand k (payload (heap s leaf)))
      then 0 else score (heap s a))"
  by (simp add: expand_node_heap [OF assms] construct_def init_node_def)

lemma tree_shapedI:
  assumes "tree_root s < fresh s"
    and "\<And>a c. a < fresh s \<Longrightarrow> c \<in> set (children (heap s a)) \<Longrightarrow> a < c \<and> c < fresh s"
    and "\<And>a p. a < fresh s \<Longrightarrow> parent (heap s a) = Some p \<Longrightarrow> p < a"
  shows "tree_shaped s"
  unfolding tree_shaped_def using assms by blast

lemma tree_shaped_root: "tree_shaped s \<Longrightarrow> tree_root s < fresh s"
  unfolding tree_shaped_def by (rule conjunct1)

lemma tree_shaped_children:
  "tree_shaped s \<Longrightarrow> a < fresh s \<Longrightarrow> c \<in> set (children (heap s a)) \<Longrightarrow> a < c \<and> c < fresh s"
  unfolding tree_shaped_def by blast

lemma tree_shaped_parent:
  "tree_shaped s \<Longrightarrow> a < fresh s \<Longrightarrow> parent (heap s a) = Some p \<Longrightarrow> p < a"
  unfolding tree_shaped_def by blast


lemma expand_node_tree_shaped:
  assumes ts: "tree_shaped s" and leaf: "leaf < fresh s"
  shows "tree_shaped (expand_node k s leaf)"
proof (rule tree_shapedI)
  let ?n = "length (expand k (payload (heap s leaf)))"
  show "tree_root (expand_node k s leaf) < fresh (expand_node k s leaf)"
    using tree_shaped_root [OF ts] by simp
next
  let ?n = "length (expand k (payload (heap s leaf)))"
  fix a c
  assume a: "a < fresh (expand_node k s leaf)"
    and c: "c \<in> set (children (heap (expand_node k s leaf) a))"
  have goal: "a < c \<and> c < fresh s + ?n"
  proof (cases "a = leaf")
    case True
    from c have "c \<in> set [fresh s ..< fresh s + ?n]"
      unfolding True expand_node_children [OF leaf] by simp
    then have "fresh s \<le> c" "c < fresh s + ?n" by simp_all
    with leaf True show ?thesis by linarith
  next
    case False
    show ?thesis
    proof (cases "fresh s \<le> a \<and> a < fresh s + ?n")
      case True
      with c False show ?thesis unfolding expand_node_children [OF leaf] by simp
    next
      case old: False
      from c have "c \<in> set (children (heap s a))"
        unfolding expand_node_children [OF leaf] using False old by simp
      moreover from a old have "a < fresh s" by simp
      ultimately have "a < c \<and> c < fresh s" using tree_shaped_children [OF ts] by blast
      then show ?thesis by linarith
    qed
  qed
  then show "a < c \<and> c < fresh (expand_node k s leaf)" by simp
next
  let ?n = "length (expand k (payload (heap s leaf)))"
  fix a p
  assume a: "a < fresh (expand_node k s leaf)"
    and p: "parent (heap (expand_node k s leaf) a) = Some p"
  show "p < a"
  proof (cases "a = leaf")
    case True
    from p have "parent (heap s leaf) = Some p"
      unfolding True expand_node_parent [OF leaf] by simp
    from tree_shaped_parent [OF ts leaf this] True show ?thesis by simp
  next
    case False
    show ?thesis
    proof (cases "fresh s \<le> a \<and> a < fresh s + ?n")
      case True
      with p False have "p = leaf" unfolding expand_node_parent [OF leaf] by simp
      with True leaf show ?thesis by linarith
    next
      case old: False
      from p have "parent (heap s a) = Some p"
        unfolding expand_node_parent [OF leaf] using False old by simp
      moreover from a old have "a < fresh s" by simp
      ultimately show ?thesis using tree_shaped_parent [OF ts] by blast
    qed
  qed
qed

lemma expand_node_visited:
  assumes inv: "visited_before_expanded s" and leaf: "leaf < fresh s"
    and v: "visit (heap s leaf) \<noteq> 0"
  shows "visited_before_expanded (expand_node k s leaf)"
  unfolding visited_before_expanded_def
proof (intro allI impI)
  fix a
  assume a: "a < fresh (expand_node k s leaf)"
    and ne: "children (heap (expand_node k s leaf) a) \<noteq> []"
  show "1 \<le> visit (heap (expand_node k s leaf) a)"
  proof (cases "a = leaf")
    case True
    with v leaf show ?thesis by (simp add: expand_node_visit)
  next
    case False
    with ne leaf have old: "\<not> (fresh s \<le> a \<and> a < fresh s + length (expand k (payload (heap s leaf))))"
      and "children (heap s a) \<noteq> []"
      by (auto simp: expand_node_children split: if_splits)
    with a have "a < fresh s" by simp
    with inv \<open>children (heap s a) \<noteq> []\<close> have "1 \<le> visit (heap s a)"
      by (simp add: visited_before_expanded_def)
    with old leaf show ?thesis by (simp add: expand_node_visit)
  qed
qed

lemma expand_node_score:
  assumes inv: "score_bounded s" and leaf: "leaf < fresh s"
  shows "score_bounded (expand_node k s leaf)"
  unfolding score_bounded_def
proof (intro allI impI)
  fix a
  assume a: "a < fresh (expand_node k s leaf)"
  show "\<bar>score (heap (expand_node k s leaf) a)\<bar> \<le> real (visit (heap (expand_node k s leaf) a))"
  proof (cases "a \<noteq> leaf \<and> fresh s \<le> a \<and> a < fresh s + length (expand k (payload (heap s leaf)))")
    case True
    with leaf show ?thesis by (simp add: expand_node_visit expand_node_score_field)
  next
    case False
    with a leaf have "a < fresh s" by auto
    with inv have "\<bar>score (heap s a)\<bar> \<le> real (visit (heap s a))"
      by (simp add: score_bounded_def)
    with False leaf show ?thesis by (simp add: expand_node_visit expand_node_score_field)
  qed
qed

lemma expand_step_cases:
  assumes "leaf < fresh s"
  shows "expand_step k s leaf =
     (if \<not> is_terminal (heap s leaf) \<and> visit (heap s leaf) \<noteq> 0 then
        (if expand k (payload (heap s leaf)) \<noteq> [] then (fresh s, expand_node k s leaf)
         else (leaf, expand_node k s leaf))
      else (leaf, s))"
  using assms by (auto simp: expand_step_def Let_def expand_node_heap nth_upt)

lemma expand_step_invariants:
  assumes ts: "tree_shaped s" and leaf: "leaf < fresh s"
    and step: "expand_step k s leaf = (c, s1)"
  shows "tree_shaped s1 \<and> c < fresh s1 \<and> tree_root s1 = tree_root s \<and> env s1 = env s \<and>
         (visited_before_expanded s \<longrightarrow> visited_before_expanded s1) \<and>
         (score_bounded s \<longrightarrow> score_bounded s1)"
proof (cases "\<not> is_terminal (heap s leaf) \<and> visit (heap s leaf) \<noteq> 0")
  case False
  with step leaf have "c = leaf" "s1 = s" by (auto simp: expand_step_cases)
  with ts leaf show ?thesis by simp
next
  case True
  then have v: "visit (heap s leaf) \<noteq> 0" by simp
  from step leaf True have s1: "s1 = expand_node k s leaf"
    and c: "c = (if expand k (payload (heap s leaf)) \<noteq> [] then fresh s else leaf)"
    by (auto simp: expand_step_cases split: if_splits)
  have "c < fresh s1" unfolding s1 c using leaf by auto
  moreover have "tree_shaped s1" unfolding s1 using ts leaf by (rule expand_node_tree_shaped)
  moreover have "visited_before_expanded s \<longrightarrow> visited_before_expanded s1"
    unfolding s1 using leaf v by (auto intro: expand_node_visited)
  moreover have "score_bounded s \<longrightarrow> score_bounded s1"
    unfolding s1 using leaf by (auto intro: expand_node_score)
  ultimately show ?thesis unfolding s1 by simp
qed


lemma simulate_backpropagate_invariants:
  assumes ts: "tree_shaped s" and c: "c < fresh s"
  shows "\<exists>s'. simulate_backpropagate k s c = Some (Inr (c, s')) \<and>
           tree_shaped s' \<and> fresh s' = fresh s \<and> tree_root s' = tree_root s \<and>
           (visited_before_expanded s \<longrightarrow> visited_before_expanded s') \<and>
           (\<bar>fst (simulate k (payload (heap s c)) (env s))\<bar> \<le> 1 \<longrightarrow> score_bounded s \<longrightarrow>
              score_bounded s')"
proof -
  obtain r g where sim: "simulate k (payload (heap s c)) (env s) = (r, g)"
    by (cases "simulate k (payload (heap s c)) (env s)") auto
  have "\<forall>a<fresh s. \<forall>p. parent (heap s a) = Some p \<longrightarrow> p < a"
    using tree_shaped_parent [OF ts] by blast
  from parent_chain_exists [OF this c] obtain as where "parent_chain (heap s) c as" ..
  from backpropagate_frame [OF this, of r] obtain h' where
    run: "backpropagate (heap s) c r = Some h'" and
    fr: "\<forall>a. children (h' a) = children (heap s a) \<and> parent (h' a) = parent (heap s a) \<and>
                is_terminal (h' a) = is_terminal (heap s a) \<and>
                minmax_search (h' a) = minmax_search (heap s a) \<and>
                payload (h' a) = payload (heap s a) \<and>
                visit (heap s a) \<le> visit (h' a) \<and>
                (\<bar>r\<bar> \<le> 1 \<longrightarrow> \<bar>score (heap s a)\<bar> \<le> real (visit (heap s a)) \<longrightarrow>
                   \<bar>score (h' a)\<bar> \<le> real (visit (h' a)))" by blast
  have chd: "children (h' a) = children (heap s a)" for a using fr by blast
  have prt: "parent (h' a) = parent (heap s a)" for a using fr by blast
  have vst: "visit (heap s a) \<le> visit (h' a)" for a using fr by blast
  have scr: "\<bar>r\<bar> \<le> 1 \<Longrightarrow> \<bar>score (heap s a)\<bar> \<le> real (visit (heap s a)) \<Longrightarrow>
                   \<bar>score (h' a)\<bar> \<le> real (visit (h' a))" for a using fr by blast
  let ?s' = "s\<lparr>heap := h', env := g\<rparr>"
  have res: "simulate_backpropagate k s c = Some (Inr (c, ?s'))"
    by (simp add: simulate_backpropagate_def sim run)
  have t: "tree_shaped ?s'"
  proof (rule tree_shapedI)
    show "tree_root ?s' < fresh ?s'" using tree_shaped_root [OF ts] by simp
  next
    fix a x
    assume "a < fresh ?s'" "x \<in> set (children (heap ?s' a))"
    then have "a < fresh s" "x \<in> set (children (heap s a))" by (simp_all add: chd)
    from tree_shaped_children [OF ts this] show "a < x \<and> x < fresh ?s'" by simp
  next
    fix a p
    assume "a < fresh ?s'" "parent (heap ?s' a) = Some p"
    then have "a < fresh s" "parent (heap s a) = Some p" by (simp_all add: prt)
    from tree_shaped_parent [OF ts this] show "p < a" .
  qed
  have v: "visited_before_expanded s \<longrightarrow> visited_before_expanded ?s'"
    unfolding visited_before_expanded_def
  proof (intro impI allI)
    fix a
    assume inv: "\<forall>a<fresh s. children (heap s a) \<noteq> [] \<longrightarrow> 1 \<le> visit (heap s a)"
      and a: "a < fresh ?s'" and ne: "children (heap ?s' a) \<noteq> []"
    from ne have "children (heap s a) \<noteq> []" by (simp add: chd)
    moreover from a have "a < fresh s" by simp
    ultimately have "1 \<le> visit (heap s a)" using inv by blast
    also have "visit (heap s a) \<le> visit (h' a)" by (rule vst)
    finally show "1 \<le> visit (heap ?s' a)" by simp
  qed
  have b: "\<bar>fst (simulate k (payload (heap s c)) (env s))\<bar> \<le> 1 \<longrightarrow> score_bounded s \<longrightarrow>
      score_bounded ?s'"
    unfolding score_bounded_def
  proof (intro impI allI)
    fix a
    assume "\<bar>fst (simulate k (payload (heap s c)) (env s))\<bar> \<le> 1"
      and inv: "\<forall>a<fresh s. \<bar>score (heap s a)\<bar> \<le> real (visit (heap s a))"
      and a: "a < fresh ?s'"
    then have r: "\<bar>r\<bar> \<le> 1" by (simp add: sim)
    from a have "a < fresh s" by simp
    with inv have "\<bar>score (heap s a)\<bar> \<le> real (visit (heap s a))" by blast
    from scr [OF r this] show "\<bar>score (heap ?s' a)\<bar> \<le> real (visit (heap ?s' a))" by simp
  qed
  have "simulate_backpropagate k s c = Some (Inr (c, ?s')) \<and>
           tree_shaped ?s' \<and> fresh ?s' = fresh s \<and> tree_root ?s' = tree_root s \<and>
           (visited_before_expanded s \<longrightarrow> visited_before_expanded ?s') \<and>
           (\<bar>fst (simulate k (payload (heap s c)) (env s))\<bar> \<le> 1 \<longrightarrow> score_bounded s \<longrightarrow>
              score_bounded ?s')"
    using res t v b by simp
  then show ?thesis by (rule exI)
qed


lemma search_iter_total:
  assumes ts: "tree_shaped s" and vis: "visited_before_expanded s"
  shows "\<exists>c s'. search_iter k s (tree_root s) = Some (Inr (c, s')) \<and>
           tree_shaped s' \<and> visited_before_expanded s' \<and> tree_root s' = tree_root s \<and>
           ((\<forall>p g. \<bar>fst (simulate k p g)\<bar> \<le> 1) \<longrightarrow> score_bounded s \<longrightarrow> score_bounded s')"
proof -
  let ?N = "int (visit (heap s (tree_root s)))"
  let ?w = "exploration_weight k"
  have root: "tree_root s < fresh s" using ts by (rule tree_shaped_root)
  have ch: "\<forall>a<fresh s. \<forall>c\<in>set (children (heap s a)). a < c \<and> c < fresh s"
    using tree_shaped_children [OF ts] by blast
  have "\<exists>leaf. descend ?w (heap s) ?N (tree_root s) = Some (Inr leaf) \<and> leaf < fresh s"
  proof (cases "children (heap s (tree_root s)) = []")
    case True
    then have "descend ?w (heap s) ?N (tree_root s) = Some (Inr (tree_root s))"
      by (rule descend_leaf)
    with root show ?thesis by blast
  next
    case False
    with vis root have "1 \<le> visit (heap s (tree_root s))"
      unfolding visited_before_expanded_def by blast
    then have "1 \<le> ?N" by simp
    from descend_total [where w = ?w and h = "heap s" and F = "fresh s", OF ch this root]
    show ?thesis by blast
  qed
  then obtain leaf where
    desc: "descend ?w (heap s) ?N (tree_root s) = Some (Inr leaf)" and leaf: "leaf < fresh s"
    by blast
  obtain c s1 where step: "expand_step k s leaf = (c, s1)"
    by (cases "expand_step k s leaf") auto
  from expand_step_invariants [OF ts leaf step] have
    e1: "tree_shaped s1" and e2: "c < fresh s1" and e3: "tree_root s1 = tree_root s" and
    e4: "visited_before_expanded s \<longrightarrow> visited_before_expanded s1" and
    e5: "score_bounded s \<longrightarrow> score_bounded s1"
    by blast+
  from simulate_backpropagate_invariants [OF e1 e2, of k] obtain s' where
    b1: "simulate_backpropagate k s1 c = Some (Inr (c, s'))" and b2: "tree_shaped s'" and
    b3: "tree_root s' = tree_root s1" and
    b4: "visited_before_expanded s1 \<longrightarrow> visited_before_expanded s'" and
    b5: "\<bar>fst (simulate k (payload (heap s1 c)) (env s1))\<bar> \<le> 1 \<longrightarrow> score_bounded s1 \<longrightarrow>
         score_bounded s'"
    by blast
  have run: "search_iter k s (tree_root s) = Some (Inr (c, s'))"
    by (simp add: search_iter_def desc step b1)
  have v: "visited_before_expanded s'" using vis e4 b4 by blast
  have r: "tree_root s' = tree_root s" using b3 e3 by simp
  have sb: "(\<forall>p g. \<bar>fst (simulate k p g)\<bar> \<le> 1) \<longrightarrow> score_bounded s \<longrightarrow> score_bounded s'"
    using e5 b5 by blast
  have "search_iter k s (tree_root s) = Some (Inr (c, s')) \<and>
           tree_shaped s' \<and> visited_before_expanded s' \<and> tree_root s' = tree_root s \<and>
           ((\<forall>p g. \<bar>fst (simulate k p g)\<bar> \<le> 1) \<longrightarrow> score_bounded s \<longrightarrow> score_bounded s')"
    using run b2 v r sb by (intro conjI)
  then show ?thesis by (intro exI)
qed

lemma new_tree_invariants:
  "tree_shaped (new_tree i g)" "visited_before_expanded (new_tree i g)"
  "score_bounded (new_tree i g)"
  by (simp_all add: tree_shaped_def visited_before_expanded_def score_bounded_def
      new_tree_def construct_def init_node_def)


lemma move_to_eq:
  "move_to s (PyNode a) = Inr (s\<lparr>tree_root := a, heap := (heap s)(a := (heap s a)\<lparr>parent := None\<rparr>)\<rparr>)"
  by (simp add: move_to_def Let_def)

lemma move_to_tree_shaped:
  assumes ts: "tree_shaped s" and a: "a < fresh s" and m: "move_to s (PyNode a) = Inr s'"
  shows "tree_shaped s'"
proof -
  have s': "s' = s\<lparr>tree_root := a, heap := (heap s)(a := (heap s a)\<lparr>parent := None\<rparr>)\<rparr>"
    using m unfolding move_to_eq by simp
  show ?thesis unfolding s'
  proof (rule tree_shapedI)
    show "tree_root (s\<lparr>tree_root := a, heap := (heap s)(a := (heap s a)\<lparr>parent := None\<rparr>)\<rparr>)
        < fresh (s\<lparr>tree_root := a, heap := (heap s)(a := (heap s a)\<lparr>parent := None\<rparr>)\<rparr>)"
      using a by simp
  next
    fix b c
    assume "b < fresh (s\<lparr>tree_root := a, heap := (heap s)(a := (heap s a)\<lparr>parent := None\<rparr>)\<rparr>)"
      "c \<in> set (children (heap (s\<lparr>tree_root := a, heap := (heap s)(a := (heap s a)\<lparr>parent := None\<rparr>)\<rparr>) b))"
    then have "b < fresh s" "c \<in> set (children (heap s b))" by (simp_all split: if_splits)
    from tree_shaped_children [OF ts this]
    show "b < c \<and> c < fresh (s\<lparr>tree_root := a, heap := (heap s)(a := (heap s a)\<lparr>parent := None\<rparr>)\<rparr>)"
      by simp
  next
    fix b p
    assume "b < fresh (s\<lparr>tree_root := a, heap := (heap s)(a := (heap s a)\<lparr>parent := None\<rparr>)\<rparr>)"
      "parent (heap (s\<lparr>tree_root := a, heap := (heap s)(a := (heap s a)\<lparr>parent := None\<rparr>)\<rparr>) b) = Some p"
    then have "b < fresh s" "parent (heap s b) = Some p" by (simp_all split: if_splits)
    from tree_shaped_parent [OF ts this] show "p < b" .
  qed
qed

lemma move_to_visited:
  assumes inv: "visited_before_expanded s" and m: "move_to s (PyNode a) = Inr s'"
  shows "visited_before_expanded s'"
proof -
  have s': "s' = s\<lparr>tree_root := a, heap := (heap s)(a := (heap s a)\<lparr>parent := None\<rparr>)\<rparr>"
    using m unfolding move_to_eq by simp
  show ?thesis using inv unfolding s' visited_before_expanded_def by simp
qed

lemma move_to_score:
  assumes inv: "score_bounded s" and m: "move_to s (PyNode a) = Inr s'"
  shows "score_bounded s'"
proof -
  have s': "s' = s\<lparr>tree_root := a, heap := (heap s)(a := (heap s a)\<lparr>parent := None\<rparr>)\<rparr>"
    using m unfolding move_to_eq by simp
  show ?thesis using inv unfolding s' score_bounded_def by simp
qed

lemma reachable_invariants:
  assumes "reachable k s"
  shows "tree_shaped s \<and> visited_before_expanded s \<and>
         ((\<forall>p g. \<bar>fst (simulate k p g)\<bar> \<le> 1) \<longrightarrow> score_bounded s)"
  using assms
proof (induction rule: reachable.induct)
  case (start i g)
  show ?case by (simp add: new_tree_invariants)
next
  case (cycle s c s')
  then have ts: "tree_shaped s" and vis: "visited_before_expanded s" by simp_all
  from search_iter_total [OF ts vis, of k] obtain c2 s2 where
    run: "search_iter k s (tree_root s) = Some (Inr (c2, s2))" and
    inv: "tree_shaped s2" "visited_before_expanded s2"
      "(\<forall>p g. \<bar>fst (simulate k p g)\<bar> \<le> 1) \<longrightarrow> score_bounded s \<longrightarrow> score_bounded s2"
    by blast
  from run cycle.hyps(2) have "s2 = s'" by simp
  with inv cycle.IH show ?case by blast
next
  case (move s a s')
  then have ts: "tree_shaped s" and vis: "visited_before_expanded s"
    and sb: "(\<forall>p g. \<bar>fst (simulate k p g)\<bar> \<le> 1) \<longrightarrow> score_bounded s" by simp_all
  have "tree_shaped s'" using ts move.hyps(2) move.hyps(3) by (rule move_to_tree_shaped)
  moreover have "visited_before_expanded s'" using vis move.hyps(3) by (rule move_to_visited)
  moreover have "(\<forall>p g. \<bar>fst (simulate k p g)\<bar> \<le> 1) \<longrightarrow> score_bounded s'"
    using sb move.hyps(3) by (blast intro: move_to_score)
  ultimately show ?case by blast
qed

lemma reachable_cycle_returns:
  assumes "reachable k s"
  shows "\<exists>c s'. search_iter k s (tree_root s) = Some (Inr (c, s')) \<and> reachable k s'"
proof -
  from reachable_invariants [OF assms] have "tree_shaped s" "visited_before_expanded s"
    by simp_all
  from search_iter_total [OF this, of k] obtain c s' where
    run: "search_iter k s (tree_root s) = Some (Inr (c, s'))" by blast
  from assms run have "reachable k s'" by (rule reachable.cycle)
  with run show ?thesis by blast
qed


lemma rewards_first: "rewards h a as r ! 0 = r"
  by (cases as) simp_all

lemma backpropagate_first:
  assumes "parent_chain h c as"
  shows "\<exists>h'. backpropagate h c r = Some h' \<and>
           visit (h' c) = visit (h c) + 1 \<and> score (h' c) = score (h c) + r"
proof -
  from backpropagate_chain [OF assms, of r] obtain h' where
    run: "backpropagate h c r = Some h'" and
    upd: "\<forall>i < Suc (length as). h' ((c # as) ! i) =
              (h ((c # as) ! i))\<lparr>visit := visit (h ((c # as) ! i)) + 1,
                 score := score (h ((c # as) ! i)) + rewards h c as r ! i\<rparr>"
    by blast
  have "0 < Suc (length as)" by simp
  with upd have "h' ((c # as) ! 0) =
              (h ((c # as) ! 0))\<lparr>visit := visit (h ((c # as) ! 0)) + 1,
                 score := score (h ((c # as) ! 0)) + rewards h c as r ! 0\<rparr>"
    by blast
  then have "h' c = (h c)\<lparr>visit := visit (h c) + 1, score := score (h c) + r\<rparr>"
    by (simp add: rewards_first)
  then have "visit (h' c) = visit (h c) + 1" "score (h' c) = score (h c) + r" by simp_all
  with run show ?thesis by blast
qed

lemma iterations_loop_reachable:
  assumes "reachable k s" and "iterations_loop k (tree_root s) n s = Some (Inr s')"
  shows "reachable k s'"
  using assms
proof (induction n arbitrary: s)
  case 0
  then show ?case by simp
next
  case (Suc n)
  from reachable_invariants [OF Suc.prems(1)] have "tree_shaped s" "visited_before_expanded s"
    by simp_all
  from search_iter_total [OF this, of k] obtain c s1 where
    run: "search_iter k s (tree_root s) = Some (Inr (c, s1))" and
    root: "tree_root s1 = tree_root s" by blast
  from Suc.prems(1) run have r1: "reachable k s1" by (rule reachable.cycle)
  from Suc.prems(2) have "iterations_loop k (tree_root s1) n s1 = Some (Inr s')"
    by (simp add: run root)
  with r1 show ?case by (rule Suc.IH)
qed

lemma toy_one_cycle:
  "\<exists>c s'. search_iter toy (new_tree toy_root 0) 0 = Some (Inr (c, s')) \<and>
     fresh s' = 1 \<and> tree_root s' = 0 \<and> children (heap s' 0) = [] \<and> visit (heap s' 0) = 1 \<and>
     \<not> is_terminal (heap s' 0) \<and> payload (heap s' 0) = 0 \<and> env s' = 1"
  by (simp add: toy_defs descend_leaf backpropagate_root)

lemma toy_two_cycles:
  "\<exists>s'. iterations_loop toy 0 (Suc (Suc 0)) (new_tree toy_root 0) = Some (Inr s') \<and>
     fresh s' = 3 \<and> children (heap s' 0) = [1, 2] \<and>
     visit (heap s' 0) = 2 \<and> score (heap s' 0) = 2 \<and>
     visit (heap s' 1) = 1 \<and> score (heap s' 1) = - 1"
  by (simp add: toy_defs descend_leaf descend_step backpropagate_root backpropagate_step upt_rec)

lemma toy_simulate_bounded: "\<forall>p g. \<bar>fst (simulate toy p g)\<bar> \<le> 1"
  by (simp add: toy_def)

section \<open>Properties of the search cycles\<close>

text \<open>
  C7. In every state reached from a new tree, the descent of a search cycle returns a
  childless node \<open>leaf\<close>. If \<open>leaf\<close> is not terminal and has been visited, the cycle works in the
  state \<open>s1\<close> after \<^verbatim>\<open>expand_node\<close> on \<open>leaf\<close>, and on the node \<open>c\<close> at index 0 of the new
  children if \<open>leaf\<close> is still not terminal, on \<open>leaf\<close> otherwise; if \<open>leaf\<close> is terminal or
  unvisited, \<open>s1\<close> is the unchanged state and \<open>c\<close> is \<open>leaf\<close>. In each case the cycle calls
  \<^verbatim>\<open>simulate\<close> on \<open>c\<close>, with the outside world as it was, and its result \<open>r\<close> is backpropagated
  from \<open>c\<close>: backpropagation returns, \<open>c\<close> gets one more visit and \<open>r\<close> added to its score, and
  the cycle returns \<open>c\<close> with the store after the backpropagation and the outside world after
  the playout. No call of \<^verbatim>\<open>select\<close> follows the expansion. After the expansion the children of
  \<open>leaf\<close> are the objects that \<^verbatim>\<open>expand()\<close> returned, in that order, and \<open>leaf\<close> is terminal
  exactly if it was so before or \<^verbatim>\<open>expand()\<close> returned no node.
\<close>

theorem search_cycle_expands_visited_leaf:
  assumes "reachable k s"
  shows "\<exists>leaf h'.
     descend (exploration_weight k) (heap s) (int (visit (heap s (tree_root s))))
       (tree_root s) = Some (Inr leaf) \<and>
     children (heap s leaf) = [] \<and>
     (let expanded = (\<not> is_terminal (heap s leaf) \<and> visit (heap s leaf) \<noteq> 0);
          s1 = (if expanded then expand_node k s leaf else s);
          c = (if expanded \<and> \<not> is_terminal (heap s1 leaf) then children (heap s1 leaf) ! 0
               else leaf);
          r = fst (simulate k (payload (heap s1 c)) (env s));
          g = snd (simulate k (payload (heap s1 c)) (env s))
      in backpropagate (heap s1) c r = Some h' \<and>
         visit (h' c) = visit (heap s1 c) + 1 \<and> score (h' c) = score (heap s1 c) + r \<and>
         search_iter k s (tree_root s) = Some (Inr (c, s1\<lparr>heap := h', env := g\<rparr>))) \<and>
     children (heap (expand_node k s leaf) leaf) =
       [fresh s ..< fresh s + length (expand k (payload (heap s leaf)))] \<and>
     (is_terminal (heap (expand_node k s leaf) leaf) \<longleftrightarrow>
        is_terminal (heap s leaf) \<or> expand k (payload (heap s leaf)) = []) \<and>
     (\<forall>i < length (expand k (payload (heap s leaf))).
        heap (expand_node k s leaf) (fresh s + i) =
          (construct (expand k (payload (heap s leaf)) ! i))\<lparr>parent := Some leaf\<rparr>)"
proof -
  let ?N = "int (visit (heap s (tree_root s)))"
  let ?w = "exploration_weight k"
  from reachable_invariants [OF assms] have ts: "tree_shaped s"
    and vis: "visited_before_expanded s" by simp_all
  have root: "tree_root s < fresh s" using ts by (rule tree_shaped_root)
  have ch: "\<forall>a<fresh s. \<forall>c\<in>set (children (heap s a)). a < c \<and> c < fresh s"
    using tree_shaped_children [OF ts] by blast
  have "\<exists>leaf. descend ?w (heap s) ?N (tree_root s) = Some (Inr leaf) \<and> leaf < fresh s \<and>
          children (heap s leaf) = []"
  proof (cases "children (heap s (tree_root s)) = []")
    case True
    then have "descend ?w (heap s) ?N (tree_root s) = Some (Inr (tree_root s))"
      by (rule descend_leaf)
    with root True show ?thesis by blast
  next
    case False
    with vis root have "1 \<le> visit (heap s (tree_root s))"
      unfolding visited_before_expanded_def by blast
    then have "1 \<le> ?N" by simp
    from descend_total [where w = ?w and h = "heap s" and F = "fresh s", OF ch this root]
    show ?thesis .
  qed
  then obtain leaf where
    desc: "descend ?w (heap s) ?N (tree_root s) = Some (Inr leaf)" and leaf: "leaf < fresh s"
    and childless: "children (heap s leaf) = []"
    by blast
  let ?is = "expand k (payload (heap s leaf))"
  define expanded where "expanded = (\<not> is_terminal (heap s leaf) \<and> visit (heap s leaf) \<noteq> 0)"
  define s1 where "s1 = (if expanded then expand_node k s leaf else s)"
  define c where "c = (if expanded \<and> \<not> is_terminal (heap s1 leaf) then children (heap s1 leaf) ! 0
            else leaf)"
  define r where "r = fst (simulate k (payload (heap s1 c)) (env s))"
  define g where "g = snd (simulate k (payload (heap s1 c)) (env s))"
  have kids: "children (heap (expand_node k s leaf) leaf) = [fresh s ..< fresh s + length ?is]"
    by (simp add: expand_node_children [OF leaf])
  have trm: "is_terminal (heap (expand_node k s leaf) leaf) \<longleftrightarrow>
      is_terminal (heap s leaf) \<or> ?is = []"
    by (auto simp: expand_node_heap [OF leaf])
  have new: "\<forall>i < length ?is.
      heap (expand_node k s leaf) (fresh s + i) = (construct (?is ! i))\<lparr>parent := Some leaf\<rparr>"
    using leaf by (simp add: expand_node_heap [OF leaf])
  have step: "expand_step k s leaf = (c, s1)"
    unfolding c_def s1_def expanded_def by (simp add: expand_step_def Let_def)
  from expand_step_invariants [OF ts leaf step] have
    ts1: "tree_shaped s1" and c1: "c < fresh s1" and env1: "env s1 = env s"
    by blast+
  have "\<forall>a<fresh s1. \<forall>p. parent (heap s1 a) = Some p \<longrightarrow> p < a"
    using tree_shaped_parent [OF ts1] by blast
  from parent_chain_exists [OF this c1] obtain as where
    chain: "parent_chain (heap s1) c as" ..
  from backpropagate_first [OF chain, of r] obtain h' where
    bp: "backpropagate (heap s1) c r = Some h'" and
    v: "visit (h' c) = visit (heap s1 c) + 1" and
    sc: "score (h' c) = score (heap s1 c) + r"
    by blast
  have sb: "simulate_backpropagate k s1 c = Some (Inr (c, s1\<lparr>heap := h', env := g\<rparr>))"
    unfolding simulate_backpropagate_def env1
    by (simp add: bp [unfolded r_def] g_def split_beta)
  have run: "search_iter k s (tree_root s) = Some (Inr (c, s1\<lparr>heap := h', env := g\<rparr>))"
    by (simp add: search_iter_def desc step sb)
  note facts = bp v sc run
  have "descend ?w (heap s) ?N (tree_root s) = Some (Inr leaf) \<and>
     children (heap s leaf) = [] \<and>
     (let expanded = (\<not> is_terminal (heap s leaf) \<and> visit (heap s leaf) \<noteq> 0);
          s1 = (if expanded then expand_node k s leaf else s);
          c = (if expanded \<and> \<not> is_terminal (heap s1 leaf) then children (heap s1 leaf) ! 0
               else leaf);
          r = fst (simulate k (payload (heap s1 c)) (env s));
          g = snd (simulate k (payload (heap s1 c)) (env s))
      in backpropagate (heap s1) c r = Some h' \<and>
         visit (h' c) = visit (heap s1 c) + 1 \<and> score (h' c) = score (heap s1 c) + r \<and>
         search_iter k s (tree_root s) = Some (Inr (c, s1\<lparr>heap := h', env := g\<rparr>))) \<and>
     children (heap (expand_node k s leaf) leaf) = [fresh s ..< fresh s + length ?is] \<and>
     (is_terminal (heap (expand_node k s leaf) leaf) \<longleftrightarrow>
        is_terminal (heap s leaf) \<or> ?is = []) \<and>
     (\<forall>i < length ?is.
        heap (expand_node k s leaf) (fresh s + i) = (construct (?is ! i))\<lparr>parent := Some leaf\<rparr>)"
    unfolding Let_def
    using desc childless facts [unfolded r_def g_def c_def s1_def expanded_def] kids trm new
    by (intro conjI)
  then show ?thesis by (intro exI)
qed


theorem search_cycle_expands_visited_leaf_witness:
  "\<exists>c s. search_iter toy (new_tree toy_root 0) 0 = Some (Inr (c, s)) \<and>
     children (heap s 0) = [] \<and> visit (heap s 0) = 1 \<and> \<not> is_terminal (heap s 0) \<and>
     children (heap (expand_node toy s 0) 0) = [1, 2] \<and>
     simulate toy (payload (heap (expand_node toy s 0) 1)) (env s) = (- 1, 2) \<and>
     (\<exists>h'. backpropagate (heap (expand_node toy s 0)) 1 (- 1) = Some h' \<and>
        visit (h' 1) = 1 \<and> score (h' 1) = - 1 \<and>
        search_iter toy s (tree_root s) =
          Some (Inr (1, (expand_node toy s 0)\<lparr>heap := h', env := 2\<rparr>)))"
proof -
  from toy_one_cycle obtain c s where
    run: "search_iter toy (new_tree toy_root 0) 0 = Some (Inr (c, s))" and
    f: "fresh s = 1" and r: "tree_root s = 0" and ch: "children (heap s 0) = []" and
    v: "visit (heap s 0) = 1" and nt: "\<not> is_terminal (heap s 0)" and
    p: "payload (heap s 0) = 0" and g: "env s = 1"
    by blast
  have r0: "tree_root (new_tree toy_root 0 :: (nat, nat) world) = 0" by (simp add: new_tree_def)
  have "reachable toy (new_tree toy_root 0)" by (rule reachable.start)
  moreover have "search_iter toy (new_tree toy_root 0)
      (tree_root (new_tree toy_root 0 :: (nat, nat) world)) = Some (Inr (c, s))"
    using run by (simp only: r0)
  ultimately have "reachable toy s" by (rule reachable.cycle)
  from search_cycle_expands_visited_leaf [OF this] obtain leaf h' where
    desc: "descend (exploration_weight toy) (heap s) (int (visit (heap s (tree_root s))))
             (tree_root s) = Some (Inr leaf)" and
    cyc: "let expanded = (\<not> is_terminal (heap s leaf) \<and> visit (heap s leaf) \<noteq> 0);
          s1 = (if expanded then expand_node toy s leaf else s);
          c = (if expanded \<and> \<not> is_terminal (heap s1 leaf) then children (heap s1 leaf) ! 0
               else leaf);
          r = fst (simulate toy (payload (heap s1 c)) (env s));
          g = snd (simulate toy (payload (heap s1 c)) (env s))
      in backpropagate (heap s1) c r = Some h' \<and>
         visit (h' c) = visit (heap s1 c) + 1 \<and> score (h' c) = score (heap s1 c) + r \<and>
         search_iter toy s (tree_root s) = Some (Inr (c, s1\<lparr>heap := h', env := g\<rparr>))" and
    kids: "children (heap (expand_node toy s leaf) leaf) =
       [fresh s ..< fresh s + length (expand toy (payload (heap s leaf)))]" and
    trm: "is_terminal (heap (expand_node toy s leaf) leaf) \<longleftrightarrow>
        is_terminal (heap s leaf) \<or> expand toy (payload (heap s leaf)) = []" and
    new: "\<forall>i < length (expand toy (payload (heap s leaf))).
        heap (expand_node toy s leaf) (fresh s + i) =
          (construct (expand toy (payload (heap s leaf)) ! i))\<lparr>parent := Some leaf\<rparr>"
    by blast
  have "descend (exploration_weight toy) (heap s) (int (visit (heap s (tree_root s))))
             (tree_root s) = Some (Inr 0)"
    unfolding r using ch by (rule descend_leaf)
  with desc have l: "leaf = 0" by simp
  have e: "expand toy 0 = [\<lparr>init_payload = Suc 0, init_minmax = True, init_terminal = False\<rparr>,
                    \<lparr>init_payload = Suc 0, init_minmax = True, init_terminal = False\<rparr>]"
    by (simp add: toy_def)
  have k2: "children (heap (expand_node toy s 0) 0) = [1, 2]"
    using kids unfolding l p f e by (simp add: upt_rec)
  have t2: "\<not> is_terminal (heap (expand_node toy s 0) 0)"
    using trm nt unfolding l p e by simp
  have "0 < length (expand toy 0)" unfolding e by simp
  with new [unfolded l p] have "heap (expand_node toy s 0) (fresh s + 0) =
      (construct (expand toy 0 ! 0))\<lparr>parent := Some 0\<rparr>"
    by blast
  then have n1: "heap (expand_node toy s 0) 1 = (construct (expand toy 0 ! 0))\<lparr>parent := Some 0\<rparr>"
    by (simp add: f)
  have p1: "payload (heap (expand_node toy s 0) 1) = 1" and
    v1: "visit (heap (expand_node toy s 0) 1) = 0" and
    s1: "score (heap (expand_node toy s 0) 1) = 0"
    unfolding n1 e by (simp_all add: construct_def init_node_def)
  have sim: "simulate toy 1 1 = (- 1, 2)" by (simp add: toy_def)
  have sim': "simulate toy (payload (heap (expand_node toy s 0) 1)) (env s) = (- 1, 2)"
    unfolding p1 g by (rule sim)
  from cyc have "backpropagate (heap (expand_node toy s 0)) 1 (- 1) = Some h' \<and>
        visit (h' 1) = 1 \<and> score (h' 1) = - 1 \<and>
        search_iter toy s (tree_root s) =
          Some (Inr (1, (expand_node toy s 0)\<lparr>heap := h', env := 2\<rparr>))"
    unfolding l Let_def
    by (simp add: nt v t2 k2 g p1 [unfolded One_nat_def] v1 [unfolded One_nat_def]
        s1 [unfolded One_nat_def] sim [unfolded One_nat_def])
  then have "\<exists>h'. backpropagate (heap (expand_node toy s 0)) 1 (- 1) = Some h' \<and>
        visit (h' 1) = 1 \<and> score (h' 1) = - 1 \<and>
        search_iter toy s (tree_root s) =
          Some (Inr (1, (expand_node toy s 0)\<lparr>heap := h', env := 2\<rparr>))"
    by (intro exI [of _ h'])
  with run ch v nt k2 sim' show ?thesis by blast
qed

text \<open>
  C9. If every result of \<^verbatim>\<open>simulate\<close> lies between \<open>-1\<close> and \<open>1\<close>, then in every state reached
  from a new tree every allocated node has \<open>\<bar>score\<bar> \<le> visit\<close>. Scores are real numbers here.
\<close>

theorem score_bounded_by_visits:
  assumes "\<forall>p g. \<bar>fst (simulate k p g)\<bar> \<le> 1" and "reachable k s" and "a < fresh s"
  shows "\<bar>score (heap s a)\<bar> \<le> real (visit (heap s a))"
proof -
  from reachable_invariants [OF assms(2)] assms(1) have "score_bounded s" by blast
  with assms(3) show ?thesis unfolding score_bounded_def by blast
qed

theorem score_bounded_by_visits_witness:
  "\<exists>s. iterations_loop toy 0 (Suc (Suc 0)) (new_tree toy_root 0) = Some (Inr s) \<and>
     score (heap s 0) = 2 \<and> visit (heap s 0) = 2 \<and> score (heap s 1) = - 1 \<and> visit (heap s 1) = 1 \<and>
     \<bar>score (heap s 0)\<bar> \<le> real (visit (heap s 0)) \<and> \<bar>score (heap s 1)\<bar> \<le> real (visit (heap s 1))"
proof -
  from toy_two_cycles obtain s where
    run: "iterations_loop toy 0 (Suc (Suc 0)) (new_tree toy_root 0) = Some (Inr s)" and
    f: "fresh s = 3" and
    vals: "score (heap s 0) = 2" "visit (heap s 0) = 2" "score (heap s 1) = - 1"
      "visit (heap s 1) = 1"
    by blast
  have r0: "tree_root (new_tree toy_root 0 :: (nat, nat) world) = 0" by (simp add: new_tree_def)
  have "reachable toy (new_tree toy_root 0)" by (rule reachable.start)
  moreover have "iterations_loop toy (tree_root (new_tree toy_root 0 :: (nat, nat) world))
      (Suc (Suc 0)) (new_tree toy_root 0) = Some (Inr s)"
    using run by (simp only: r0)
  ultimately have re: "reachable toy s" by (rule iterations_loop_reachable)
  have "\<bar>score (heap s 0)\<bar> \<le> real (visit (heap s 0))"
    using toy_simulate_bounded re by (rule score_bounded_by_visits) (simp add: f)
  moreover have "\<bar>score (heap s 1)\<bar> \<le> real (visit (heap s 1))"
    using toy_simulate_bounded re by (rule score_bounded_by_visits) (simp add: f)
  ultimately show ?thesis using run vals by blast
qed

text \<open>
  C10. In every state reached from a new tree, every allocated node with a non-empty children
  list has been visited at least once.
\<close>

theorem expanded_nodes_are_visited:
  assumes "reachable k s" and "a < fresh s" and "children (heap s a) \<noteq> []"
  shows "1 \<le> visit (heap s a)"
proof -
  from reachable_invariants [OF assms(1)] have "visited_before_expanded s" by blast
  with assms(2,3) show ?thesis unfolding visited_before_expanded_def by blast
qed

theorem expanded_nodes_are_visited_witness:
  "\<exists>s. iterations_loop toy 0 (Suc (Suc 0)) (new_tree toy_root 0) = Some (Inr s) \<and>
     children (heap s 0) = [1, 2] \<and> 1 \<le> visit (heap s 0)"
proof -
  from toy_two_cycles obtain s where
    run: "iterations_loop toy 0 (Suc (Suc 0)) (new_tree toy_root 0) = Some (Inr s)" and
    f: "fresh s = 3" and ch: "children (heap s 0) = [1, 2]"
    by blast
  have r0: "tree_root (new_tree toy_root 0 :: (nat, nat) world) = 0" by (simp add: new_tree_def)
  have "reachable toy (new_tree toy_root 0)" by (rule reachable.start)
  moreover have "iterations_loop toy (tree_root (new_tree toy_root 0 :: (nat, nat) world))
      (Suc (Suc 0)) (new_tree toy_root 0) = Some (Inr s)"
    using run by (simp only: r0)
  ultimately have re: "reachable toy s" by (rule iterations_loop_reachable)
  have "1 \<le> visit (heap s 0)"
    using re by (rule expanded_nodes_are_visited) (simp_all add: f ch)
  with run ch show ?thesis by blast
qed

end
